theory Spec2Isabelle
  imports Complex_Main "HOL-Library.Multiset"
begin

section \<open>Values of a parsed JSON payload\<close>

text \<open>
  \<^verbatim>\<open>json.load\<close> yields \<^verbatim>\<open>None\<close>, booleans, unbounded integers, floats,
  strings, lists and dicts.  A float is either a finite double, taken as the
  rational number it denotes, or one of the three special values that
  \<^verbatim>\<open>json.load\<close> produces from \<^verbatim>\<open>Infinity\<close>, \<^verbatim>\<open>-Infinity\<close>, \<^verbatim>\<open>NaN\<close> and from
  literals beyond the double range such as \<^verbatim>\<open>1e999\<close>.  Text is a list of
  bytes, the UTF-8 encoding of the Python string.  A dict is the list of its
  items in insertion order; a key is looked up from the left.
\<close>

datatype pyfloat = FloatVal rat | FloatInf | FloatNegInf | FloatNaN

datatype pyval =
    PNone
  | PBool bool
  | PInt int
  | PFloat pyfloat
  | PStr string
  | PList "pyval list"
  | PDict "(string \<times> pyval) list"

text \<open>The exceptions that the modelled code can raise.\<close>

datatype error =
    KeyError | IndexError | TypeError | AttributeError | ValueError | OverflowError

text \<open>Truth value of an object in a condition (\<^verbatim>\<open>if x:\<close>).\<close>

fun truthy :: "pyval \<Rightarrow> bool" where
  "truthy PNone = False"
| "truthy (PBool b) = b"
| "truthy (PInt n) = (n \<noteq> 0)"
| "truthy (PFloat (FloatVal r)) = (r \<noteq> 0)"
| "truthy (PFloat _) = True"
| "truthy (PStr s) = (s \<noteq> [])"
| "truthy (PList xs) = (xs \<noteq> [])"
| "truthy (PDict kvs) = (kvs \<noteq> [])"

text \<open>\<^verbatim>\<open>d.get(k)\<close> and \<^verbatim>\<open>d.get(k, default)\<close> on a dict; any other receiver has
  no attribute \<^verbatim>\<open>get\<close>.\<close>

definition dict_get :: "(string \<times> pyval) list \<Rightarrow> string \<Rightarrow> pyval \<Rightarrow> pyval" where
  "dict_get d k dflt = (case map_of d k of None \<Rightarrow> dflt | Some v \<Rightarrow> v)"

fun py_get :: "pyval \<Rightarrow> string \<Rightarrow> pyval \<Rightarrow> error + pyval" where
  "py_get (PDict d) k dflt = Inr (dict_get d k dflt)"
| "py_get _ k dflt = Inl AttributeError"

section \<open>Prices\<close>

text \<open>
  \<^verbatim>\<open>price_value\<close> is an integer or \<^verbatim>\<open>float('inf')\<close>.  Python compares the
  two kinds of number by value, every integer being below infinity.
\<close>

datatype price = Fin int | Infinity

instantiation price :: linorder
begin

fun less_eq_price :: "price \<Rightarrow> price \<Rightarrow> bool" where
  "less_eq_price (Fin a) (Fin b) = (a \<le> b)"
| "less_eq_price (Fin a) Infinity = True"
| "less_eq_price Infinity (Fin b) = False"
| "less_eq_price Infinity Infinity = True"

definition less_price :: "price \<Rightarrow> price \<Rightarrow> bool" where
  "less_price p q = (p \<le> q \<and> \<not> q \<le> p)"

instance
proof
  fix x y z :: price
  show "(x < y) = (x \<le> y \<and> \<not> y \<le> x)"
    by (simp add: less_price_def)
  show "x \<le> x"
    by (cases x) simp_all
  show "x \<le> y \<Longrightarrow> y \<le> z \<Longrightarrow> x \<le> z"
    by (cases x; cases y; cases z) simp_all
  show "x \<le> y \<Longrightarrow> y \<le> x \<Longrightarrow> x = y"
    by (cases x; cases y) simp_all
  show "x \<le> y \<or> y \<le> x"
    by (cases x; cases y) auto
qed

end

subsection \<open>Text to integer\<close>

text \<open>
  \<^verbatim>\<open>s.replace(old, '')\<close> deletes the occurrences of \<^verbatim>\<open>old\<close> from left to
  right, without overlap.  On UTF-8 bytes this is the deletion on code points.
\<close>

function remove_all :: "string \<Rightarrow> string \<Rightarrow> string" where
  "remove_all old [] = []"
| "remove_all old (c # cs) =
     (if old \<noteq> [] \<and> take (length old) (c # cs) = old
      then remove_all old (drop (length old) (c # cs))
      else c # remove_all old cs)"
  by pat_completeness auto
termination
  by (relation "measure (\<lambda>(old, s). length s)") auto

text \<open>The characters of a string, as \<^verbatim>\<open>for c in s\<close> and \<^verbatim>\<open>s[0]\<close> see them:
  a leading byte with the continuation bytes \<^verbatim>\<open>10xxxxxx\<close> that follow it;
  and the code point that such a group encodes.\<close>

definition is_cont :: "char \<Rightarrow> bool" where
  "is_cont c = (let n = (of_char c :: nat) in 128 \<le> n \<and> n < 192)"

function utf8_chars :: "string \<Rightarrow> string list" where
  "utf8_chars [] = []"
| "utf8_chars (c # cs) = (c # takeWhile is_cont cs) # utf8_chars (dropWhile is_cont cs)"
  by pat_completeness auto
termination
  by (relation "measure length") (auto simp: length_dropWhile_le less_Suc_eq_le)

fun code_point :: "string \<Rightarrow> int" where
  "code_point [] = 0"
| "code_point [a] = of_char a"
| "code_point [a, b] = (of_char a - 192) * 64 + (of_char b - 128)"
| "code_point [a, b, c] =
     (of_char a - 224) * 4096 + (of_char b - 128) * 64 + (of_char c - 128)"
| "code_point (a # b # c # d # rest) =
     (of_char a - 240) * 262144 + (of_char b - 128) * 4096
       + (of_char c - 128) * 64 + (of_char d - 128)"

text \<open>The code points for which \<^verbatim>\<open>str.isspace()\<close> holds, which
  \<^verbatim>\<open>str.strip()\<close> removes from both ends.\<close>

definition is_space :: "int \<Rightarrow> bool" where
  "is_space n =
     ((9 \<le> n \<and> n \<le> 13) \<or> (28 \<le> n \<and> n \<le> 32) \<or> n = 133 \<or> n = 160 \<or> n = 5760
      \<or> (8192 \<le> n \<and> n \<le> 8202) \<or> n = 8232 \<or> n = 8233 \<or> n = 8239 \<or> n = 8287
      \<or> n = 12288)"

definition strip :: "string \<Rightarrow> string" where
  "strip s =
     concat (rev (dropWhile (\<lambda>c. is_space (code_point c))
                   (rev (dropWhile (\<lambda>c. is_space (code_point c)) (utf8_chars s)))))"

text \<open>
  The decimal digits of Unicode 14.0, the version of Python 3.11: each entry
  is the code point of a zero, followed in the standard by its nine
  successors.
\<close>

definition decimal_zeros :: "int list" where
  "decimal_zeros =
     [48, 1632, 1776, 1984, 2406, 2534, 2662, 2790, 2918, 3046, 3174, 3302, 3430, 3558,
      3664, 3792, 3872, 4160, 4240, 6112, 6160, 6470, 6608, 6784, 6800, 6992, 7088, 7232,
      7248, 42528, 43216, 43264, 43472, 43504, 43600, 44016, 65296, 66720, 68912, 69734,
      69872, 69942, 70096, 70384, 70736, 70864, 71248, 71360, 71472, 71904, 72016, 72784,
      73040, 73120, 92768, 92864, 93008, 120782, 120792, 120802, 120812, 120822, 123200,
      123632, 125264, 130032]"

definition decimal_value :: "int \<Rightarrow> int option" where
  "decimal_value n =
     (case filter (\<lambda>z. z \<le> n \<and> n < z + 10) decimal_zeros of
        [] \<Rightarrow> None
      | z # zs \<Rightarrow> Some (n - z))"

text \<open>
  \<^verbatim>\<open>int(s)\<close> first rewrites the string: a character below 127 stays, any
  other white space becomes a blank and any other decimal digit its ASCII
  digit; a character that is neither makes the string invalid.
\<close>

definition to_ascii :: "int \<Rightarrow> int option" where
  "to_ascii n =
     (if n < 127 then Some n
      else if is_space n then Some 32
      else map_option (\<lambda>d. 48 + d) (decimal_value n))"

text \<open>The white space that the parser skips at both ends, and the digits.\<close>

definition is_c_space :: "int \<Rightarrow> bool" where
  "is_c_space n = ((9 \<le> n \<and> n \<le> 13) \<or> n = 32)"

definition is_digit :: "int \<Rightarrow> bool" where
  "is_digit n = (48 \<le> n \<and> n \<le> 57)"

text \<open>Decimal digits, where one underscore may stand between two digits.\<close>

fun digits_acc :: "int \<Rightarrow> int list \<Rightarrow> int option" where
  "digits_acc acc [] = Some acc"
| "digits_acc acc [c] = (if is_digit c then Some (10 * acc + (c - 48)) else None)"
| "digits_acc acc (c # d # ds) =
     (if is_digit c then digits_acc (10 * acc + (c - 48)) (d # ds)
      else if c = 95 \<and> is_digit d then digits_acc (10 * acc + (d - 48)) ds
      else None)"

definition digits :: "int list \<Rightarrow> int option" where
  "digits s = (case s of [] \<Rightarrow> None
               | c # cs \<Rightarrow> if is_digit c then digits_acc (c - 48) cs else None)"

text \<open>
  \<^verbatim>\<open>int(s)\<close> for a string: white space around, an optional sign \<^verbatim>\<open>-\<close>
  (45) or \<^verbatim>\<open>+\<close> (43), then the digits; \<^verbatim>\<open>None\<close> stands for
  \<^verbatim>\<open>ValueError\<close>, which is also raised for more than 4300 digits, the
  default limit of the interpreter.
\<close>

definition py_int_of_str :: "string \<Rightarrow> int option" where
  "py_int_of_str s =
     (case those (map (\<lambda>c. to_ascii (code_point c)) (utf8_chars s)) of
        None \<Rightarrow> None
      | Some buffer \<Rightarrow>
          (case rev (dropWhile is_c_space (rev (dropWhile is_c_space buffer))) of
             [] \<Rightarrow> None
           | c # cs \<Rightarrow>
               (let ds = (if c = 45 \<or> c = 43 then cs else c # cs)
                in case digits ds of
                     None \<Rightarrow> None
                   | Some v \<Rightarrow>
                       if 4300 < int (length (filter is_digit ds)) then None
                       else Some (if c = 45 then - v else v))))"

text \<open>\<^verbatim>\<open>int(x)\<close> for a float: truncation towards zero; infinities raise
  \<^verbatim>\<open>OverflowError\<close> and NaN raises \<^verbatim>\<open>ValueError\<close>.\<close>

fun py_int_of_float :: "pyfloat \<Rightarrow> error + int" where
  "py_int_of_float (FloatVal r) = Inr (if 0 \<le> r then \<lfloor>r\<rfloor> else - \<lfloor>- r\<rfloor>)"
| "py_int_of_float FloatInf = Inl OverflowError"
| "py_int_of_float FloatNegInf = Inl OverflowError"
| "py_int_of_float FloatNaN = Inl ValueError"

text \<open>The rupee sign U+20B9 in UTF-8.\<close>

definition rupee :: string where
  "rupee = [char_of (226::nat), char_of (130::nat), char_of (185::nat)]"

subsection \<open>\<^verbatim>\<open>clean_price\<close>\<close>

text \<open>
  \<^verbatim>\<open>bool\<close> is a subclass of \<^verbatim>\<open>int\<close>, so a boolean takes the numeric
  branch.  Only the string branch is guarded by \<^verbatim>\<open>try/except ValueError\<close>.
\<close>

fun clean_price :: "pyval \<Rightarrow> error + price" where
  "clean_price PNone = Inr Infinity"
| "clean_price (PBool b) = Inr (Fin (if b then 1 else 0))"
| "clean_price (PInt n) = Inr (Fin n)"
| "clean_price (PFloat x) =
     (case py_int_of_float x of Inl e \<Rightarrow> Inl e | Inr n \<Rightarrow> Inr (Fin n))"
| "clean_price (PStr s) =
     (let clean_str = strip (remove_all ''INR'' (remove_all '','' (remove_all rupee s)))
      in case py_int_of_str clean_str of
           Some n \<Rightarrow> Inr (Fin n)
         | None \<Rightarrow> Inr Infinity)"
| "clean_price (PList xs) = Inr Infinity"
| "clean_price (PDict kvs) = Inr Infinity"

section \<open>The direct-flight extractor\<close>

subsection \<open>Gathering the offers\<close>

text \<open>What \<^verbatim>\<open>sources.extend(x)\<close> appends: the elements of a list, the keys
  of a dict, the characters of a string; anything else is not iterable.\<close>

fun py_iter :: "pyval \<Rightarrow> error + pyval list" where
  "py_iter (PList xs) = Inr xs"
| "py_iter (PDict kvs) = Inr (map (\<lambda>kv. PStr (fst kv)) kvs)"
| "py_iter (PStr s) = Inr (map PStr (utf8_chars s))"
| "py_iter _ = Inl TypeError"

text \<open>\<^verbatim>\<open>if k in data: sources.extend(data[k])\<close> for a dict \<^verbatim>\<open>data\<close>.\<close>

definition extend_from ::
  "(string \<times> pyval) list \<Rightarrow> string \<Rightarrow> pyval list \<Rightarrow> error + pyval list" where
  "extend_from data k sources =
     (case map_of data k of
        None \<Rightarrow> Inr sources
      | Some v \<Rightarrow> (case py_iter v of Inl e \<Rightarrow> Inl e | Inr xs \<Rightarrow> Inr (sources @ xs)))"

text \<open>The test of the fallback scan:
  \<^verbatim>\<open>isinstance(v, list) and v\<close>, then
  \<^verbatim>\<open>isinstance(v[0], dict) and 'flights' in v[0]\<close>.\<close>

fun looks_like_flights :: "pyval \<Rightarrow> bool" where
  "looks_like_flights (PList (PDict first # rest)) = (map_of first ''flights'' \<noteq> None)"
| "looks_like_flights _ = False"

text \<open>The scan \<^verbatim>\<open>for v in data.values()\<close>, which extends the empty
  \<^verbatim>\<open>sources\<close> by the first matching list and breaks.\<close>

fun scan_values :: "pyval list \<Rightarrow> pyval list" where
  "scan_values [] = []"
| "scan_values (v # vs) =
     (if looks_like_flights v then (case v of PList xs \<Rightarrow> xs | _ \<Rightarrow> [])
      else scan_values vs)"

text \<open>\<^verbatim>\<open>sub in s\<close> for two strings.\<close>

fun is_substring :: "string \<Rightarrow> string \<Rightarrow> bool" where
  "is_substring sub [] = (sub = [])"
| "is_substring sub (c # cs) = (take (length sub) (c # cs) = sub \<or> is_substring sub cs)"

text \<open>
  The offers to examine: the two known groupings, and the scan where
  \<^verbatim>\<open>not sources\<close> holds after them.  For a payload that is not a dict, \<^verbatim>\<open>k in data\<close>
  is a membership test on a list, a substring test on a string and a
  \<^verbatim>\<open>TypeError\<close> otherwise; where the test succeeds \<^verbatim>\<open>data[k]\<close> raises
  \<^verbatim>\<open>TypeError\<close>, and where both tests fail \<^verbatim>\<open>data.values()\<close> raises
  \<^verbatim>\<open>AttributeError\<close>.
\<close>

definition known_groupings :: "(string \<times> pyval) list \<Rightarrow> error + pyval list" where
  "known_groupings data =
     (case extend_from data ''best_flights'' [] of
        Inl e \<Rightarrow> Inl e
      | Inr sources \<Rightarrow> extend_from data ''other_flights'' sources)"

fun gather_sources :: "pyval \<Rightarrow> error + pyval list" where
  "gather_sources (PDict data) =
     (case known_groupings data of
        Inl e \<Rightarrow> Inl e
      | Inr sources \<Rightarrow>
          Inr (if sources = [] then scan_values (map snd data) else sources))"
| "gather_sources (PList xs) =
     (if PStr ''best_flights'' \<in> set xs \<or> PStr ''other_flights'' \<in> set xs
      then Inl TypeError else Inl AttributeError)"
| "gather_sources (PStr s) =
     (if is_substring ''best_flights'' s \<or> is_substring ''other_flights'' s
      then Inl TypeError else Inl AttributeError)"
| "gather_sources _ = Inl TypeError"

text \<open>\<^verbatim>\<open>data.get('search_metadata', {}).get('google_flights_url')\<close>, evaluated
  after the offers are gathered, so \<^verbatim>\<open>data\<close> is a dict there.\<close>

fun search_url_of :: "pyval \<Rightarrow> error + pyval" where
  "search_url_of (PDict data) =
     py_get (dict_get data ''search_metadata'' (PDict [])) ''google_flights_url'' PNone"
| "search_url_of _ = Inl AttributeError"

subsection \<open>One offer\<close>

text \<open>
  The link is the offer's own URL, or the search URL, or the text
  \<^verbatim>\<open>'No link'\<close>, or the formatted string
  \<^verbatim>\<open>f"{search_url}&booking_token={booking_token}"\<close>, kept as its two parts.
\<close>

datatype link_value = Url pyval | TokenUrl pyval pyval

record flight_info =
  airline :: pyval
  flight_number :: pyval
  departure :: pyval
  arrival :: pyval
  duration :: pyval
  price_raw :: pyval
  price_value :: price
  link :: link_value

definition resolve_link :: "pyval \<Rightarrow> pyval \<Rightarrow> pyval \<Rightarrow> link_value" where
  "resolve_link per_flight_url booking_token search_url =
     (if truthy per_flight_url then Url per_flight_url
      else if truthy booking_token \<and> truthy search_url then TokenUrl search_url booking_token
      else if truthy search_url then Url search_url
      else Url (PStr ''No link''))"

text \<open>\<^verbatim>\<open>x[0]\<close>: a dict from JSON has string keys only, so \<^verbatim>\<open>0\<close> is a
  missing key.\<close>

fun py_index0 :: "pyval \<Rightarrow> error + pyval" where
  "py_index0 (PList []) = Inl IndexError"
| "py_index0 (PList (x # xs)) = Inr x"
| "py_index0 (PStr s) =
     (case utf8_chars s of [] \<Rightarrow> Inl IndexError | c # cs \<Rightarrow> Inr (PStr c))"
| "py_index0 (PDict kvs) = Inl KeyError"
| "py_index0 _ = Inl TypeError"

text \<open>\<^verbatim>\<open>flight['flights'][0]\<close> for a dict \<^verbatim>\<open>flight\<close>.\<close>

definition first_segment :: "(string \<times> pyval) list \<Rightarrow> error + pyval" where
  "first_segment flight =
     (case map_of flight ''flights'' of None \<Rightarrow> Inl KeyError | Some v \<Rightarrow> py_index0 v)"

text \<open>
  The rest of the \<^verbatim>\<open>try\<close> body.  The first call on \<^verbatim>\<open>segment\<close> is
  \<^verbatim>\<open>segment.get\<close>, which needs a dict; the entries of the record are
  evaluated in the order written, so the two airport lookups come before
  \<^verbatim>\<open>clean_price\<close>.
\<close>

fun build_flight_info ::
  "pyval \<Rightarrow> (string \<times> pyval) list \<Rightarrow> pyval \<Rightarrow> error + flight_info" where
  "build_flight_info search_url flight (PDict segment) =
     (case py_get (dict_get segment ''departure_airport'' (PDict [])) ''time'' (PStr ''Unknown'') of
        Inl e \<Rightarrow> Inl e
      | Inr dep \<Rightarrow>
     (case py_get (dict_get segment ''arrival_airport'' (PDict [])) ''time'' (PStr ''Unknown'') of
        Inl e \<Rightarrow> Inl e
      | Inr arr \<Rightarrow>
     (case clean_price (dict_get flight ''price'' PNone) of
        Inl e \<Rightarrow> Inl e
      | Inr pv \<Rightarrow>
          Inr \<lparr> airline = dict_get segment ''airline'' (PStr ''Unknown''),
                flight_number = dict_get segment ''flight_number'' (PStr ''N/A''),
                departure = dep,
                arrival = arr,
                duration = dict_get flight ''total_duration'' (PStr ''Unknown''),
                price_raw = dict_get flight ''price'' PNone,
                price_value = pv,
                link = resolve_link (dict_get flight ''google_flights_url'' PNone)
                         (dict_get flight ''booking_token'' PNone) search_url \<rparr>)))"
| "build_flight_info search_url flight _ = Inl AttributeError"

text \<open>
  What one turn of the loop does: \<^verbatim>\<open>continue\<close> on a layover, append a
  record, or print the diagnostic and \<^verbatim>\<open>continue\<close> on the two exceptions
  that the \<^verbatim>\<open>except\<close> clause names.  Any other exception leaves the loop.
\<close>

datatype outcome = Direct flight_info | HasLayovers | Malformed error

definition caught :: "error \<Rightarrow> error + outcome" where
  "caught e = (if e = KeyError \<or> e = IndexError then Inr (Malformed e) else Inl e)"

fun process_offer :: "pyval \<Rightarrow> pyval \<Rightarrow> error + outcome" where
  "process_offer search_url (PDict flight) =
     (if truthy (dict_get flight ''layovers'' PNone) then Inr HasLayovers
      else case first_segment flight of
             Inl e \<Rightarrow> caught e
           | Inr segment \<Rightarrow>
               (case build_flight_info search_url flight segment of
                  Inl e \<Rightarrow> caught e
                | Inr flight_info \<Rightarrow> Inr (Direct flight_info)))"
| "process_offer search_url _ = Inl AttributeError"

fun process_offers :: "pyval \<Rightarrow> pyval list \<Rightarrow> error + outcome list" where
  "process_offers search_url [] = Inr []"
| "process_offers search_url (flight # rest) =
     (case process_offer search_url flight of
        Inl e \<Rightarrow> Inl e
      | Inr r \<Rightarrow>
          (case process_offers search_url rest of
             Inl e \<Rightarrow> Inl e
           | Inr rs \<Rightarrow> Inr (r # rs)))"

fun appended :: "outcome list \<Rightarrow> flight_info list" where
  "appended [] = []"
| "appended (Direct f # rs) = f # appended rs"
| "appended (r # rs) = appended rs"

fun diagnostics :: "outcome list \<Rightarrow> error list" where
  "diagnostics [] = []"
| "diagnostics (Malformed e # rs) = e # diagnostics rs"
| "diagnostics (r # rs) = diagnostics rs"

subsection \<open>\<^verbatim>\<open>find_direct_flights\<close>\<close>

text \<open>The loop over the gathered offers, for a parsed payload.\<close>

definition scan_payload :: "pyval \<Rightarrow> error + outcome list" where
  "scan_payload data =
     (case gather_sources data of
        Inl e \<Rightarrow> Inl e
      | Inr sources \<Rightarrow>
          (case search_url_of data of
             Inl e \<Rightarrow> Inl e
           | Inr search_url \<Rightarrow> process_offers search_url sources))"

definition all_flights :: "pyval \<Rightarrow> error + flight_info list" where
  "all_flights data =
     (case scan_payload data of Inl e \<Rightarrow> Inl e | Inr rs \<Rightarrow> Inr (appended rs))"

text \<open>
  The argument is the parsed content of the file, \<^verbatim>\<open>None\<close> where the file
  does not exist.  \<^verbatim>\<open>sorted\<close> is stable, as insertion sort is.
\<close>

fun find_direct_flights :: "pyval option \<Rightarrow> error + flight_info list" where
  "find_direct_flights None = Inr []"
| "find_direct_flights (Some data) =
     (case all_flights data of
        Inl e \<Rightarrow> Inl e
      | Inr fs \<Rightarrow> Inr (sort_key price_value fs))"

section \<open>Double-precision arithmetic\<close>

text \<open>
  The threshold of the alternatives is computed in doubles.  Addition and
  multiplication of finite doubles give the exact result rounded to the
  nearest double, ties to even, and infinity beyond the range; the sign of
  a zero is not kept, as no operation here observes it.
\<close>

definition pow2 :: "int \<Rightarrow> rat" where
  "pow2 e = (if 0 \<le> e then 2 ^ nat e else 1 / 2 ^ nat (- e))"

function bit_length :: "int \<Rightarrow> int" where
  "bit_length n = (if n \<le> 0 then 0 else 1 + bit_length (n div 2))"
  by pat_completeness auto
termination
  by (relation "measure nat") auto

declare bit_length.simps [simp del]

text \<open>For \<open>0 < a\<close>, the exponent \<open>e\<close> with \<open>2\<^sup>e \<le> a < 2\<^sup>e\<^sup>+\<^sup>1\<close>.\<close>

definition floor_log2 :: "rat \<Rightarrow> int" where
  "floor_log2 a =
     (let p = fst (quotient_of a); q = snd (quotient_of a);
          e = bit_length p - bit_length q
      in if pow2 e \<le> a then e else e - 1)"

definition round_half_even :: "rat \<Rightarrow> int" where
  "round_half_even q =
     (let n = \<lfloor>q\<rfloor>; d = q - of_int n
      in if d < 1 / 2 then n else if 1 / 2 < d then n + 1
         else if even n then n else n + 1)"

text \<open>Rounding to a double: 53 significant bits, least exponent \<open>-1022\<close>
  (gradual underflow), overflow where the rounded value reaches
  \<open>2\<^sup>1\<^sup>0\<^sup>2\<^sup>4\<close>.\<close>

definition round_double :: "rat \<Rightarrow> pyfloat" where
  "round_double r =
     (if r = 0 then FloatVal 0
      else let a = \<bar>r\<bar>;
               e = max (floor_log2 a) (- 1022);
               ulp = pow2 (e - 52);
               v = of_int (round_half_even (a / ulp)) * ulp
           in if 1024 \<le> floor_log2 v then (if 0 < r then FloatInf else FloatNegInf)
              else FloatVal (if 0 < r then v else - v))"

fun fsign :: "pyfloat \<Rightarrow> int" where
  "fsign (FloatVal a) = (if a = 0 then 0 else if 0 < a then 1 else - 1)"
| "fsign FloatInf = 1"
| "fsign FloatNegInf = - 1"
| "fsign FloatNaN = 0"

definition fadd :: "pyfloat \<Rightarrow> pyfloat \<Rightarrow> pyfloat" where
  "fadd x y =
     (if x = FloatNaN \<or> y = FloatNaN then FloatNaN
      else case (x, y) of
             (FloatVal a, FloatVal b) \<Rightarrow> round_double (a + b)
           | (FloatVal a, _) \<Rightarrow> y
           | (_, FloatVal b) \<Rightarrow> x
           | _ \<Rightarrow> if x = y then x else FloatNaN)"

definition fmul :: "pyfloat \<Rightarrow> pyfloat \<Rightarrow> pyfloat" where
  "fmul x y =
     (if x = FloatNaN \<or> y = FloatNaN then FloatNaN
      else case (x, y) of
             (FloatVal a, FloatVal b) \<Rightarrow> round_double (a * b)
           | _ \<Rightarrow> (let s = fsign x * fsign y
                   in if s = 0 then FloatNaN else if 0 < s then FloatInf else FloatNegInf))"

text \<open>An integer operand is converted first, which raises
  \<^verbatim>\<open>OverflowError\<close> where the nearest double would be infinite.\<close>

definition float_of_int :: "int \<Rightarrow> error + pyfloat" where
  "float_of_int n =
     (case round_double (of_int n) of
        FloatVal v \<Rightarrow> Inr (FloatVal v)
      | _ \<Rightarrow> Inl OverflowError)"

text \<open>\<^verbatim>\<open>p <= x\<close> for a price and a float: by value, false against NaN.\<close>

fun price_le :: "price \<Rightarrow> pyfloat \<Rightarrow> bool" where
  "price_le (Fin p) (FloatVal r) = (of_int p \<le> r)"
| "price_le (Fin p) FloatInf = True"
| "price_le Infinity FloatInf = True"
| "price_le _ _ = False"

section \<open>Recommendations and alternatives\<close>

text \<open>
  \<^verbatim>\<open>search_flights_tool\<close> and the Streamlit search handler hold the same
  selection inline, the first with three picks and five percent, the second
  with the two values of the sidebar.

  Keys of a dict or set are equal when Python's \<^verbatim>\<open>==\<close> says so: numbers by
  value whatever their kind, text by content.  The single NaN object of the
  JSON decoder is found by identity.  Lists and dicts cannot be hashed.
\<close>

datatype key = KNone | KNum rat | KPosInf | KNegInf | KNaN | KStr string | KUnhashable pyval

fun hashable :: "pyval \<Rightarrow> bool" where
  "hashable (PList xs) = False"
| "hashable (PDict kvs) = False"
| "hashable _ = True"

fun py_key :: "pyval \<Rightarrow> key" where
  "py_key PNone = KNone"
| "py_key (PBool b) = KNum (if b then 1 else 0)"
| "py_key (PInt n) = KNum (of_int n)"
| "py_key (PFloat (FloatVal r)) = KNum r"
| "py_key (PFloat FloatInf) = KPosInf"
| "py_key (PFloat FloatNegInf) = KNegInf"
| "py_key (PFloat FloatNaN) = KNaN"
| "py_key (PStr s) = KStr s"
| "py_key v = KUnhashable v"

definition py_hash :: "pyval \<Rightarrow> error + key" where
  "py_hash v = (if hashable v then Inr (py_key v) else Inl TypeError)"

text \<open>The set comprehension \<^verbatim>\<open>{f['flight_number'] for f in recommended}\<close>.\<close>

fun hash_all :: "pyval list \<Rightarrow> error + key list" where
  "hash_all [] = Inr []"
| "hash_all (v # vs) =
     (case py_hash v of
        Inl e \<Rightarrow> Inl e
      | Inr k \<Rightarrow> (case hash_all vs of Inl e \<Rightarrow> Inl e | Inr ks \<Rightarrow> Inr (k # ks)))"

text \<open>The dict of the first flight of every airline, in insertion order.\<close>

fun unique_airlines ::
  "flight_info list \<Rightarrow> (key \<times> flight_info) list \<Rightarrow> error + (key \<times> flight_info) list" where
  "unique_airlines [] unique = Inr unique"
| "unique_airlines (f # fs) unique =
     (case py_hash (airline f) of
        Inl e \<Rightarrow> Inl e
      | Inr a \<Rightarrow>
          unique_airlines fs (if a \<in> fst ` set unique then unique else unique @ [(a, f)]))"

text \<open>The loop that appends the next cheapest flights with a new number.\<close>

fun backfill ::
  "nat \<Rightarrow> flight_info list \<Rightarrow> flight_info list \<Rightarrow> key list \<Rightarrow> error + flight_info list" where
  "backfill max_picks [] recommended seen = Inr recommended"
| "backfill max_picks (f # fs) recommended seen =
     (case py_hash (flight_number f) of
        Inl e \<Rightarrow> Inl e
      | Inr n \<Rightarrow>
          if n \<in> set seen then backfill max_picks fs recommended seen
          else if max_picks \<le> length (recommended @ [f]) then Inr (recommended @ [f])
          else backfill max_picks fs (recommended @ [f]) (n # seen))"

definition fill_up ::
  "nat \<Rightarrow> flight_info list \<Rightarrow> flight_info list \<Rightarrow> error + flight_info list" where
  "fill_up max_picks flights recommended =
     (if length recommended < max_picks
      then (case hash_all (map flight_number recommended) of
              Inl e \<Rightarrow> Inl e
            | Inr seen \<Rightarrow> backfill max_picks flights recommended seen)
      else Inr recommended)"

text \<open>\<^verbatim>\<open>flights[0]['price_value']\<close>.\<close>

fun cheapest_price :: "flight_info list \<Rightarrow> error + price" where
  "cheapest_price [] = Inl IndexError"
| "cheapest_price (f # fs) = Inr (price_value f)"

text \<open>\<^verbatim>\<open>cheapest * (1 + tolerance_pct)\<close>.\<close>

fun threshold :: "price \<Rightarrow> pyfloat \<Rightarrow> error + pyfloat" where
  "threshold (Fin c) tolerance_pct =
     (case float_of_int c of
        Inl e \<Rightarrow> Inl e
      | Inr x \<Rightarrow> Inr (fmul x (fadd (FloatVal 1) tolerance_pct)))"
| "threshold Infinity tolerance_pct = Inr (fmul FloatInf (fadd (FloatVal 1) tolerance_pct))"

text \<open>The comprehension of the alternatives; the set of recommended
  numbers is built, and the flight's own number hashed, only for a flight
  within the threshold.\<close>

fun alt_candidates ::
  "pyfloat \<Rightarrow> flight_info list \<Rightarrow> flight_info list \<Rightarrow> error + flight_info list" where
  "alt_candidates thr recommended [] = Inr []"
| "alt_candidates thr recommended (f # fs) =
     (if price_le (price_value f) thr
      then (case hash_all (map flight_number recommended) of
              Inl e \<Rightarrow> Inl e
            | Inr rs \<Rightarrow>
          (case py_hash (flight_number f) of
              Inl e \<Rightarrow> Inl e
            | Inr n \<Rightarrow>
          (case alt_candidates thr recommended fs of
              Inl e \<Rightarrow> Inl e
            | Inr alts \<Rightarrow> Inr (if n \<in> set rs then alts else f # alts))))
      else alt_candidates thr recommended fs)"

text \<open>
  The selection as a function of the sorted flights and the two settings.
  With no flight the guard \<^verbatim>\<open>if not flights\<close> leaves the block out:
  nothing is recommended and nothing is an alternative.
\<close>

definition recommend ::
  "flight_info list \<Rightarrow> nat \<Rightarrow> pyfloat \<Rightarrow> error + (flight_info list \<times> flight_info list)" where
  "recommend flights max_picks tolerance_pct =
     (if flights = [] then Inr ([], [])
      else case unique_airlines flights [] of
             Inl e \<Rightarrow> Inl e
           | Inr unique \<Rightarrow>
          (case fill_up max_picks flights
                  (take max_picks (sort_key price_value (map snd unique))) of
             Inl e \<Rightarrow> Inl e
           | Inr recommended \<Rightarrow>
          (case cheapest_price flights of
             Inl e \<Rightarrow> Inl e
           | Inr cheapest \<Rightarrow>
          (case threshold cheapest tolerance_pct of
             Inl e \<Rightarrow> Inl e
           | Inr thr \<Rightarrow>
          (case alt_candidates thr recommended flights of
             Inl e \<Rightarrow> Inl e
           | Inr alts \<Rightarrow> Inr (recommended, alts))))))"

text \<open>The two callers: the literal \<^verbatim>\<open>0.05\<close>, and \<^verbatim>\<open>tolerance / 100.0\<close> for
  the whole number of the slider.\<close>

definition agent_recommend ::
  "flight_info list \<Rightarrow> error + (flight_info list \<times> flight_info list)" where
  "agent_recommend flights = recommend flights 3 (round_double (5 / 100))"

definition streamlit_recommend ::
  "flight_info list \<Rightarrow> nat \<Rightarrow> nat \<Rightarrow> error + (flight_info list \<times> flight_info list)" where
  "streamlit_recommend flights top_n tolerance =
     recommend flights top_n (round_double (of_nat tolerance / 100))"

text \<open>The key under which a flight's number, and its airline, is hashed.\<close>

definition fn_key :: "flight_info \<Rightarrow> key" where
  "fn_key f = py_key (flight_number f)"

definition airline_key :: "flight_info \<Rightarrow> key" where
  "airline_key f = py_key (airline f)"

section \<open>Notions of the specification\<close>

text \<open>An offer carries a layover indicator when the value under
  \<^verbatim>\<open>'layovers'\<close> is neither absent nor null nor empty (nor zero nor false).\<close>

fun has_layovers :: "pyval \<Rightarrow> bool" where
  "has_layovers (PDict flight) = truthy (dict_get flight ''layovers'' PNone)"
| "has_layovers _ = False"

text \<open>An offer has a route segment when the value under \<^verbatim>\<open>'flights'\<close>
  is a list with at least one element.\<close>

fun has_segment :: "pyval \<Rightarrow> bool" where
  "has_segment (PDict flight) =
     (case map_of flight ''flights'' of Some (PList (x # xs)) \<Rightarrow> True | _ \<Rightarrow> False)"
| "has_segment _ = False"

fun is_direct :: "outcome \<Rightarrow> bool" where
  "is_direct (Direct f) = True"
| "is_direct _ = False"

text \<open>
  The shape of an offer as the search provider documents it: a dict whose
  \<^verbatim>\<open>'flights'\<close>, where present, is a list of dicts; in the first of them
  the two airports, where present, are dicts; and the price is no infinite
  or undefined float.
\<close>

fun is_dict :: "pyval \<Rightarrow> bool" where
  "is_dict (PDict kvs) = True"
| "is_dict _ = False"

fun finite_price :: "pyval \<Rightarrow> bool" where
  "finite_price (PFloat (FloatVal r)) = True"
| "finite_price (PFloat _) = False"
| "finite_price _ = True"

fun well_formed_segment :: "pyval \<Rightarrow> bool" where
  "well_formed_segment (PDict segment) =
     (is_dict (dict_get segment ''departure_airport'' (PDict []))
      \<and> is_dict (dict_get segment ''arrival_airport'' (PDict [])))"
| "well_formed_segment _ = False"

fun well_formed_offer :: "pyval \<Rightarrow> bool" where
  "well_formed_offer (PDict flight) =
     (finite_price (dict_get flight ''price'' PNone)
      \<and> (case map_of flight ''flights'' of
            None \<Rightarrow> True
          | Some (PList segments) \<Rightarrow> list_all well_formed_segment segments
          | Some _ \<Rightarrow> False))"
| "well_formed_offer _ = False"

text \<open>Walking the sorted list in order and keeping each flight whose
  number was neither selected before nor met earlier in the walk.\<close>

fun next_unselected :: "key list \<Rightarrow> flight_info list \<Rightarrow> flight_info list" where
  "next_unselected seen [] = []"
| "next_unselected seen (f # fs) =
     (if fn_key f \<in> set seen then next_unselected seen fs
      else f # next_unselected (fn_key f # seen) fs)"

text \<open>
  The alternatives as the specification words them, in exact arithmetic:
  the flights priced at no more than the least price times
  \<open>1 + tolerance\<close>, the tolerance a rational number, whose number is not
  that of a recommended flight.  An unreadable price is above every finite
  bound, and the bound of an unreadable least price is infinite where
  \<open>1 + tolerance\<close> is positive.
\<close>

fun spec_within :: "rat \<Rightarrow> price \<Rightarrow> price \<Rightarrow> bool" where
  "spec_within tolerance (Fin cheapest) (Fin p) = (of_int p \<le> of_int cheapest * (1 + tolerance))"
| "spec_within tolerance (Fin cheapest) Infinity = False"
| "spec_within tolerance Infinity p = (0 < 1 + tolerance)"

definition spec_alternatives ::
  "flight_info list \<Rightarrow> rat \<Rightarrow> flight_info list \<Rightarrow> flight_info list" where
  "spec_alternatives flights tolerance recommended =
     filter (\<lambda>f. spec_within tolerance (Min (price_value ` set flights)) (price_value f)
                 \<and> fn_key f \<notin> fn_key ` set recommended) flights"

section \<open>Doubles, declaratively\<close>

text \<open>
  The finite doubles are the numbers \<open>m \<sqdot> 2\<^sup>e\<close> with a significand below
  \<open>2\<^sup>5\<^sup>3\<close> and an exponent from \<open>-1074\<close> to \<open>971\<close>.  A number rounds to a
  nearest double; of two nearest doubles it rounds to the even multiple of
  their distance; and it rounds to an infinity from
  \<open>2\<^sup>1\<^sup>0\<^sup>2\<^sup>4 - 2\<^sup>9\<^sup>7\<^sup>0\<close> on, half a unit above the largest double.
\<close>

definition is_double :: "rat \<Rightarrow> bool" where
  "is_double v \<longleftrightarrow> (\<exists>m e. \<bar>m\<bar> < 2 ^ 53 \<and> - 1074 \<le> e \<and> e \<le> 971 \<and> v = of_int m * pow2 e)"

definition overflow_bound :: rat where
  "overflow_bound = pow2 1024 - pow2 970"

fun rounds_to :: "rat \<Rightarrow> pyfloat \<Rightarrow> bool" where
  "rounds_to x (FloatVal v) =
     (\<bar>x\<bar> < overflow_bound \<and> is_double v
      \<and> (\<forall>d. is_double d \<longrightarrow> \<bar>v - x\<bar> \<le> \<bar>d - x\<bar>)
      \<and> (\<forall>d. is_double d \<and> d \<noteq> v \<and> \<bar>d - x\<bar> = \<bar>v - x\<bar>
             \<longrightarrow> (\<exists>k. even k \<and> v = of_int k * \<bar>d - v\<bar>)))"
| "rounds_to x FloatInf = (overflow_bound \<le> x)"
| "rounds_to x FloatNegInf = (x \<le> - overflow_bound)"
| "rounds_to x FloatNaN = False"

text \<open>
  The sum \<^verbatim>\<open>1 + t\<close> and the product \<^verbatim>\<open>x * y\<close> of floats: of finite
  operands the exact result, rounded; an infinite or undefined \<^verbatim>\<open>t\<close>
  is its own sum with one; a product with an infinite factor is infinite with
  the sign of the two factors, and undefined where the other factor is zero
  or undefined.
\<close>

fun sum_with_one :: "pyfloat \<Rightarrow> pyfloat \<Rightarrow> bool" where
  "sum_with_one (FloatVal t) s = rounds_to (1 + t) s"
| "sum_with_one t s = (s = t)"

fun product_of :: "pyfloat \<Rightarrow> pyfloat \<Rightarrow> pyfloat \<Rightarrow> bool" where
  "product_of (FloatVal a) (FloatVal b) z = rounds_to (a * b) z"
| "product_of x y z =
     (z = (if x = FloatNaN \<or> y = FloatNaN \<or> fsign x * fsign y = 0 then FloatNaN
           else if 0 < fsign x * fsign y then FloatInf else FloatNegInf))"

text \<open>
  The bound of the alternatives: the least price, as the double nearest to
  it where it is a number, times the sum of one and the tolerance.
\<close>

fun is_threshold :: "price \<Rightarrow> pyfloat \<Rightarrow> pyfloat \<Rightarrow> bool" where
  "is_threshold (Fin c) tolerance_pct thr =
     (\<exists>c' s. rounds_to (of_int c) (FloatVal c') \<and> sum_with_one tolerance_pct s
             \<and> product_of (FloatVal c') s thr)"
| "is_threshold Infinity tolerance_pct thr =
     (\<exists>s. sum_with_one tolerance_pct s \<and> product_of FloatInf s thr)"

section \<open>Sample data\<close>

definition sample_segment :: "string \<Rightarrow> pyval \<Rightarrow> pyval" where
  "sample_segment name number_field =
     PDict ([(''airline'', PStr name)] @
            (case number_field of PNone \<Rightarrow> [] | n \<Rightarrow> [(''flight_number'', n)]) @
            [(''departure_airport'', PDict [(''time'', PStr ''2026-01-20 06:00'')]),
             (''arrival_airport'', PDict [(''time'', PStr ''2026-01-20 08:10'')])])"

text \<open>An offer with one segment; \<^verbatim>\<open>PNone\<close> as number leaves the field out.\<close>

definition sample_offer :: "string \<Rightarrow> pyval \<Rightarrow> pyval \<Rightarrow> pyval" where
  "sample_offer name number_field price_field =
     PDict [(''flights'', PList [sample_segment name number_field]),
            (''total_duration'', PInt 130),
            (''price'', price_field)]"

definition sample_flight :: "string \<Rightarrow> pyval \<Rightarrow> pyval \<Rightarrow> price \<Rightarrow> flight_info" where
  "sample_flight name number price_field pv =
     \<lparr> airline = PStr name, flight_number = number,
       departure = PStr ''2026-01-20 06:00'', arrival = PStr ''2026-01-20 08:10'',
       duration = PInt 130, price_raw = price_field, price_value = pv,
       link = Url (PStr ''No link'') \<rparr>"

text \<open>Six offers in the two groupings, one of them with a stop and two
  without a readable price, and the flights they give.\<close>

definition layover_offer :: pyval where
  "layover_offer =
     PDict [(''flights'', PList [sample_segment ''Vistara'' (PStr ''UK 955''),
                                 sample_segment ''Vistara'' (PStr ''UK 871'')]),
            (''layovers'', PList [PDict [(''duration'', PInt 95), (''id'', PStr ''HYD'')]]),
            (''price'', PInt 3900)]"

definition sample_payload :: pyval where
  "sample_payload =
     PDict [(''best_flights'',
               PList [sample_offer ''Air India'' (PStr ''AI 2425'') (PStr (rupee @ ''4,500'')),
                      sample_offer ''IndiGo'' (PStr ''6E 2112'') (PStr (rupee @ ''4,000''))]),
            (''other_flights'',
               PList [sample_offer ''Air India'' (PStr ''AI 2927'') (PInt 5200),
                      layover_offer,
                      sample_offer ''SpiceJet'' (PStr ''SG 8169'') (PStr ''bad''),
                      sample_offer ''Akasa Air'' (PStr ''QP 1371'') PNone])]"

definition sample_unsorted :: "flight_info list" where
  "sample_unsorted =
     [sample_flight ''Air India'' (PStr ''AI 2425'') (PStr (rupee @ ''4,500'')) (Fin 4500),
      sample_flight ''IndiGo'' (PStr ''6E 2112'') (PStr (rupee @ ''4,000'')) (Fin 4000),
      sample_flight ''Air India'' (PStr ''AI 2927'') (PInt 5200) (Fin 5200),
      sample_flight ''SpiceJet'' (PStr ''SG 8169'') (PStr ''bad'') Infinity,
      sample_flight ''Akasa Air'' (PStr ''QP 1371'') PNone Infinity]"

definition sample_sorted :: "flight_info list" where
  "sample_sorted =
     [sample_flight ''IndiGo'' (PStr ''6E 2112'') (PStr (rupee @ ''4,000'')) (Fin 4000),
      sample_flight ''Air India'' (PStr ''AI 2425'') (PStr (rupee @ ''4,500'')) (Fin 4500),
      sample_flight ''Air India'' (PStr ''AI 2927'') (PInt 5200) (Fin 5200),
      sample_flight ''SpiceJet'' (PStr ''SG 8169'') (PStr ''bad'') Infinity,
      sample_flight ''Akasa Air'' (PStr ''QP 1371'') PNone Infinity]"

text \<open>Four sorted flights of two airlines.\<close>

definition two_airlines :: "flight_info list" where
  "two_airlines =
     [sample_flight ''IndiGo'' (PStr ''6E 2112'') (PInt 4000) (Fin 4000),
      sample_flight ''IndiGo'' (PStr ''6E 5031'') (PInt 4100) (Fin 4100),
      sample_flight ''Air India'' (PStr ''AI 2425'') (PInt 4150) (Fin 4150),
      sample_flight ''IndiGo'' (PStr ''6E 2003'') (PInt 4180) (Fin 4180)]"

text \<open>Two offers of different airlines whose segments carry no flight number.\<close>

definition unnumbered_payload :: pyval where
  "unnumbered_payload =
     PDict [(''best_flights'',
               PList [sample_offer ''IndiGo'' PNone (PInt 4000),
                      sample_offer ''Air India'' PNone (PInt 4100)])]"

definition unnumbered_flights :: "flight_info list" where
  "unnumbered_flights =
     [sample_flight ''IndiGo'' (PStr ''N/A'') (PInt 4000) (Fin 4000),
      sample_flight ''Air India'' (PStr ''N/A'') (PInt 4100) (Fin 4100)]"

text \<open>Three offers of one flight at three fares.\<close>

definition three_fares_payload :: pyval where
  "three_fares_payload =
     PDict [(''best_flights'',
               PList [sample_offer ''IndiGo'' (PStr ''6E 2112'') (PInt 4000),
                      sample_offer ''IndiGo'' (PStr ''6E 2112'') (PInt 4100),
                      sample_offer ''IndiGo'' (PStr ''6E 2112'') (PInt 4150)])]"

definition three_fares :: "flight_info list" where
  "three_fares =
     [sample_flight ''IndiGo'' (PStr ''6E 2112'') (PInt 4000) (Fin 4000),
      sample_flight ''IndiGo'' (PStr ''6E 2112'') (PInt 4100) (Fin 4100),
      sample_flight ''IndiGo'' (PStr ''6E 2112'') (PInt 4150) (Fin 4150)]"

text \<open>A payload whose known grouping is present and empty, with the offers
  under another key.\<close>

definition renamed_payload :: "(string \<times> pyval) list" where
  "renamed_payload =
     [(''search_parameters'', PDict [(''engine'', PStr ''google_flights'')]),
      (''best_flights'', PList []),
      (''flights_found'', PList [sample_offer ''IndiGo'' (PStr ''6E 2112'') (PInt 4000)]),
      (''more_flights'', PList [sample_offer ''Air India'' (PStr ''AI 2425'') (PInt 4100)])]"

text \<open>A payload whose first offer has \<^verbatim>\<open>null\<close> for its segments.\<close>

definition null_segments_payload :: pyval where
  "null_segments_payload =
     PDict [(''best_flights'',
               PList [PDict [(''flights'', PNone), (''price'', PInt 3800)],
                      sample_offer ''IndiGo'' (PStr ''6E 2112'') (PInt 4000)])]"

text \<open>A payload whose first offer has no segments at all and whose second
  has an empty list of them.\<close>

definition incomplete_payload :: pyval where
  "incomplete_payload =
     PDict [(''best_flights'',
               PList [PDict [(''price'', PInt 3800)],
                      PDict [(''flights'', PList []), (''price'', PInt 3900)],
                      sample_offer ''IndiGo'' (PStr ''6E 2112'') (PInt 4000)])]"

text \<open>A payload of four offers: one with a stop, one without segments,
  and two direct offers, the second priced \<^verbatim>\<open>1e999\<close>, which the JSON
  decoder reads as the infinite float.\<close>

definition unbounded_price_offer :: pyval where
  "unbounded_price_offer = sample_offer ''Air India'' (PStr ''AI 2425'') (PFloat FloatInf)"

definition unbounded_price_payload :: pyval where
  "unbounded_price_payload =
     PDict [(''best_flights'',
               PList [layover_offer,
                      PDict [(''price'', PInt 3800)],
                      sample_offer ''IndiGo'' (PStr ''6E 2112'') (PInt 4000),
                      unbounded_price_offer])]"

text \<open>Five sorted flights of five airlines, the last two priced thirteen
  and fifteen percent above the first.\<close>

definition five_fares :: "flight_info list" where
  "five_fares =
     [sample_flight ''IndiGo'' (PStr ''6E 2112'') (PInt 5000) (Fin 5000),
      sample_flight ''Air India'' (PStr ''AI 2425'') (PInt 5200) (Fin 5200),
      sample_flight ''SpiceJet'' (PStr ''SG 8169'') (PInt 5400) (Fin 5400),
      sample_flight ''Akasa Air'' (PStr ''QP 1371'') (PInt 5650) (Fin 5650),
      sample_flight ''Vistara'' (PStr ''UK 955'') (PInt 5750) (Fin 5750)]"

section \<open>Properties of the price normaliser\<close>

text \<open>
  \<^verbatim>\<open>clean_price\<close> returns for every value but three: a float that is
  infinite or NaN reaches \<^verbatim>\<open>int(price_input)\<close>, which lies outside the
  \<^verbatim>\<open>try\<close> of the string branch.
\<close>

lemma clean_price_returns:
  "(\<exists>p. clean_price v = Inr p) \<longleftrightarrow> v \<notin> {PFloat FloatInf, PFloat FloatNegInf, PFloat FloatNaN}"
proof (cases v)
  case (PFloat x)
  then show ?thesis by (cases x) simp_all
next
  case (PStr s)
  then show ?thesis by (simp add: Let_def split: option.splits)
qed simp_all

text \<open>
  Claim C1: the price normaliser returns a finite integer or infinity for
  every input and never raises.  Evaluated at the float that
  \<^verbatim>\<open>json.load\<close> gives for \<^verbatim>\<open>1e999\<close> or \<^verbatim>\<open>Infinity\<close>, which is also the
  function's own sentinel \<^verbatim>\<open>float('inf')\<close>, and at NaN: the function raises
  \<^verbatim>\<open>OverflowError\<close> and \<^verbatim>\<open>ValueError\<close>.
\<close>

theorem clean_price_raises:
  "clean_price (PFloat FloatInf) = Inl OverflowError
   \<and> clean_price (PFloat FloatNaN) = Inl ValueError"
  by simp

section \<open>Properties of the extractor\<close>

subsection \<open>One offer, and the loop\<close>

lemma build_flight_info_error:
  "build_flight_info url flight segment = Inl e \<Longrightarrow> e \<noteq> KeyError \<and> e \<noteq> IndexError"
proof (cases segment)
  case (PDict seg)
  assume b: "build_flight_info url flight segment = Inl e"
  have p: "py_get x k d = Inl e' \<Longrightarrow> e' = AttributeError" for x k d e'
    by (cases x) simp_all
  have c: "clean_price x = Inl e' \<Longrightarrow> e' = OverflowError \<or> e' = ValueError" for x e'
  proof (cases x)
    case (PFloat y)
    assume "clean_price x = Inl e'"
    with PFloat show ?thesis by (cases y) auto
  next
    case (PStr s)
    assume "clean_price x = Inl e'"
    with PStr show ?thesis by (simp add: Let_def split: option.splits)
  qed auto
  from b PDict show ?thesis
    by (auto split: sum.splits dest!: p c)
qed simp_all

lemma build_flight_info_dict:
  "build_flight_info url flight segment = Inr f \<Longrightarrow> \<exists>seg. segment = PDict seg"
  by (cases segment) simp_all

lemma build_flight_info_fields:
  assumes "build_flight_info search_url flight (PDict segment) = Inr f"
  shows "airline f = dict_get segment ''airline'' (PStr ''Unknown'')"
    and "flight_number f = dict_get segment ''flight_number'' (PStr ''N/A'')"
    and "py_get (dict_get segment ''departure_airport'' (PDict [])) ''time'' (PStr ''Unknown'')
           = Inr (departure f)"
    and "py_get (dict_get segment ''arrival_airport'' (PDict [])) ''time'' (PStr ''Unknown'')
           = Inr (arrival f)"
    and "duration f = dict_get flight ''total_duration'' (PStr ''Unknown'')"
    and "price_raw f = dict_get flight ''price'' PNone"
    and "clean_price (price_raw f) = Inr (price_value f)"
    and "link f = resolve_link (dict_get flight ''google_flights_url'' PNone)
                    (dict_get flight ''booking_token'' PNone) search_url"
  using assms by (auto split: sum.splits)

lemma first_segment_Inr:
  "first_segment flight = Inr (PDict seg) \<Longrightarrow> has_segment (PDict flight)"
proof -
  assume a: "first_segment flight = Inr (PDict seg)"
  then obtain v where v: "map_of flight ''flights'' = Some v" and i: "py_index0 v = Inr (PDict seg)"
    by (auto simp: first_segment_def split: option.splits)
  from i have "\<exists>x xs. v = PList (x # xs)"
    by (cases v rule: py_index0.cases) (auto split: list.splits)
  with v show ?thesis by auto
qed

lemma first_segment_caught:
  "first_segment flight = Inl e \<Longrightarrow> e = KeyError \<or> e = IndexError \<Longrightarrow> \<not> has_segment (PDict flight)"
  by (auto simp: first_segment_def split: option.splits pyval.splits list.splits)

lemma process_offer_outcome:
  assumes "process_offer url offer = Inr r"
  shows "(has_layovers offer \<longrightarrow> r = HasLayovers)
         \<and> (is_direct r \<longleftrightarrow> \<not> has_layovers offer \<and> has_segment offer)"
proof (cases offer)
  case (PDict flight)
  show ?thesis
  proof (cases "truthy (dict_get flight ''layovers'' PNone)")
    case True
    with assms PDict show ?thesis by simp
  next
    case False
    show ?thesis
    proof (cases "first_segment flight")
      case (Inl e)
      with assms PDict False have "caught e = Inr r" by simp
      then have "r = Malformed e" "e = KeyError \<or> e = IndexError"
        by (auto simp: caught_def split: if_splits)
      with first_segment_caught [OF Inl] PDict False show ?thesis by simp
    next
      case (Inr segment)
      show ?thesis
      proof (cases "build_flight_info url flight segment")
        case (Inl e)
        with assms PDict False \<open>first_segment flight = Inr segment\<close>
        have "caught e = Inr r" by simp
        then have "e = KeyError \<or> e = IndexError" by (auto simp: caught_def split: if_splits)
        with build_flight_info_error [OF Inl] show ?thesis by blast
      next
        case (Inr f)
        with assms PDict False \<open>first_segment flight = Inr segment\<close>
        have r: "r = Direct f" by simp
        from build_flight_info_dict [OF Inr] obtain seg where "segment = PDict seg" by blast
        with \<open>first_segment flight = Inr segment\<close> have "has_segment (PDict flight)"
          by (auto dest: first_segment_Inr)
        with r PDict False show ?thesis by simp
      qed
    qed
  qed
qed (use assms in simp_all)

lemma process_offers_outcomes:
  "process_offers url offers = Inr rs \<Longrightarrow>
   list_all2 (\<lambda>offer r. (has_layovers offer \<longrightarrow> r = HasLayovers)
                \<and> (is_direct r \<longleftrightarrow> \<not> has_layovers offer \<and> has_segment offer)) offers rs"
proof (induction offers arbitrary: rs)
  case Nil
  then show ?case by simp
next
  case (Cons offer offers)
  from Cons.prems obtain r rs' where r: "process_offer url offer = Inr r"
    and rs': "process_offers url offers = Inr rs'" and rs: "rs = r # rs'"
    by (auto split: sum.splits)
  from process_offer_outcome [OF r] Cons.IH [OF rs'] rs show ?case by simp
qed

lemma length_appended: "length (appended rs) = length (filter is_direct rs)"
  by (induction rs rule: appended.induct) simp_all

lemma length_filter_all2:
  "list_all2 (\<lambda>x y. Q y \<longleftrightarrow> P x) xs ys \<Longrightarrow> length (filter Q ys) = length (filter P xs)"
  by (induction xs ys rule: list_all2_induct) simp_all

subsection \<open>When the extractor returns\<close>

text \<open>
  The extractor returns for a dict payload whose offers have the documented
  shape and whose search metadata, where present, is a dict.
\<close>

lemma clean_price_finite: "finite_price v \<Longrightarrow> \<exists>p. clean_price v = Inr p"
  by (cases v rule: finite_price.cases) (simp_all add: Let_def split: option.splits)

lemma py_get_dict: "is_dict v \<Longrightarrow> \<exists>x. py_get v k d = Inr x"
  by (cases v) simp_all

lemma build_flight_info_returns:
  assumes "well_formed_segment segment" and "finite_price (dict_get flight ''price'' PNone)"
  shows "\<exists>f. build_flight_info search_url flight segment = Inr f"
proof (cases segment)
  case (PDict seg)
  with assms(1) obtain dep arr where
    "py_get (dict_get seg ''departure_airport'' (PDict [])) ''time'' (PStr ''Unknown'') = Inr dep"
    "py_get (dict_get seg ''arrival_airport'' (PDict [])) ''time'' (PStr ''Unknown'') = Inr arr"
    using py_get_dict by (metis well_formed_segment.simps(1))
  moreover from clean_price_finite [OF assms(2)] obtain pv
    where "clean_price (dict_get flight ''price'' PNone) = Inr pv" by blast
  ultimately show ?thesis using PDict by simp
qed (use assms(1) in simp_all)

lemma process_offer_returns:
  assumes "well_formed_offer offer"
  shows "\<exists>r. process_offer search_url offer = Inr r"
proof (cases offer)
  case (PDict flight)
  show ?thesis
  proof (cases "truthy (dict_get flight ''layovers'' PNone)")
    case True
    with PDict show ?thesis by simp
  next
    case False
    from assms PDict have fp: "finite_price (dict_get flight ''price'' PNone)" by simp
    show ?thesis
    proof (cases "map_of flight ''flights''")
      case None
      with PDict False show ?thesis by (simp add: first_segment_def caught_def)
    next
      case (Some v)
      with assms PDict obtain segments where v: "v = PList segments"
        and wf: "list_all well_formed_segment segments"
        by (cases v) simp_all
      show ?thesis
      proof (cases segments)
        case Nil
        with PDict False Some v show ?thesis by (simp add: first_segment_def caught_def)
      next
        case (Cons segment rest)
        with wf have "well_formed_segment segment" by simp
        from build_flight_info_returns [OF this fp] obtain f
          where "build_flight_info search_url flight segment = Inr f" by blast
        with PDict False Some v Cons show ?thesis by (simp add: first_segment_def)
      qed
    qed
  qed
qed (use assms in simp_all)

lemma process_offers_returns:
  "\<forall>offer\<in>set offers. well_formed_offer offer \<Longrightarrow> \<exists>rs. process_offers search_url offers = Inr rs"
proof (induction offers)
  case Nil
  then show ?case by simp
next
  case (Cons offer offers)
  then obtain rs where "process_offers search_url offers = Inr rs" by auto
  moreover from Cons.prems process_offer_returns [of offer search_url] obtain r
    where "process_offer search_url offer = Inr r" by auto
  ultimately show ?case by simp
qed

lemma find_direct_flights_returns:
  assumes "gather_sources (PDict data) = Inr sources"
    and "\<forall>offer\<in>set sources. well_formed_offer offer"
    and "is_dict (dict_get data ''search_metadata'' (PDict []))"
  shows "\<exists>out. find_direct_flights (Some (PDict data)) = Inr out"
proof -
  from py_get_dict [OF assms(3)] obtain url where "search_url_of (PDict data) = Inr url"
    by auto
  moreover from process_offers_returns [OF assms(2)] obtain rs
    where "process_offers url sources = Inr rs" by blast
  ultimately show ?thesis using assms(1) by (simp add: scan_payload_def all_flights_def)
qed

subsection \<open>The sample payload\<close>

lemma sample_payload_flights:
  "find_direct_flights (Some sample_payload) = Inr sample_sorted"
  by code_simp

lemma sample_payload_all: "all_flights sample_payload = Inr sample_unsorted"
  by code_simp

lemma sample_payload_sources:
  "gather_sources sample_payload
   = Inr [sample_offer ''Air India'' (PStr ''AI 2425'') (PStr (rupee @ ''4,500'')),
          sample_offer ''IndiGo'' (PStr ''6E 2112'') (PStr (rupee @ ''4,000'')),
          sample_offer ''Air India'' (PStr ''AI 2927'') (PInt 5200),
          layover_offer,
          sample_offer ''SpiceJet'' (PStr ''SG 8169'') (PStr ''bad''),
          sample_offer ''Akasa Air'' (PStr ''QP 1371'') PNone]"
  by code_simp

subsection \<open>Order of the result\<close>

text \<open>
  Claim C2: whenever \<^verbatim>\<open>find_direct_flights\<close> returns for a payload, the
  returned flights are the appended flights in non-decreasing order of
  \<^verbatim>\<open>price_value\<close>, and the flights of any one price stand in the order
  in which the loop met them.  (Where the file is missing the result is the
  empty list.)
\<close>

theorem find_direct_flights_sorted:
  assumes "find_direct_flights (Some data) = Inr out"
  shows "\<exists>fs. all_flights data = Inr fs
           \<and> sorted (map price_value out)
           \<and> mset out = mset fs
           \<and> (\<forall>p. filter (\<lambda>f. price_value f = p) out = filter (\<lambda>f. price_value f = p) fs)"
proof -
  from assms obtain fs where fs: "all_flights data = Inr fs" and out: "out = sort_key price_value fs"
    by (auto split: sum.splits)
  have "sorted (map price_value out)" unfolding out by (rule sorted_sort_key)
  moreover have "mset out = mset fs" unfolding out by simp
  moreover have "filter (\<lambda>f. price_value f = p) out = filter (\<lambda>f. price_value f = p) fs" for p
    unfolding out by (rule sort_key_stable)
  ultimately show ?thesis using fs by blast
qed

text \<open>
  The sample payload: the two flights without a readable price come last,
  in the order of the payload.
\<close>

theorem find_direct_flights_sorted_witness:
  "find_direct_flights (Some sample_payload) = Inr sample_sorted
   \<and> all_flights sample_payload = Inr sample_unsorted
   \<and> sorted (map price_value sample_sorted)
   \<and> filter (\<lambda>f. price_value f = Infinity) sample_sorted
       = filter (\<lambda>f. price_value f = Infinity) sample_unsorted"
proof -
  from find_direct_flights_sorted [OF sample_payload_flights] obtain fs where
    fs: "all_flights sample_payload = Inr fs"
    and s: "sorted (map price_value sample_sorted)"
    and st: "\<forall>p. filter (\<lambda>f. price_value f = p) sample_sorted = filter (\<lambda>f. price_value f = p) fs"
    by blast
  from fs have "fs = sample_unsorted" by (simp add: sample_payload_all)
  with st s show ?thesis using sample_payload_flights sample_payload_all by blast
qed

subsection \<open>Direct offers only\<close>

text \<open>
  Whenever \<^verbatim>\<open>find_direct_flights\<close> returns, every gathered offer has
  one outcome; an offer with a layover indicator is skipped, and an offer
  gives a flight record, one and whole, exactly when it has no layover
  indicator and at least one route segment.  The result has as many flights
  as there are such offers.
\<close>

lemma find_direct_flights_direct_only:
  assumes "find_direct_flights (Some data) = Inr out"
  shows "\<exists>sources rs. gather_sources data = Inr sources
           \<and> scan_payload data = Inr rs
           \<and> mset out = mset (appended rs)
           \<and> length out = length (filter (\<lambda>offer. \<not> has_layovers offer \<and> has_segment offer) sources)
           \<and> list_all2 (\<lambda>offer r. (has_layovers offer \<longrightarrow> r = HasLayovers)
                \<and> (is_direct r \<longleftrightarrow> \<not> has_layovers offer \<and> has_segment offer)) sources rs"
proof -
  from assms obtain rs where rs: "scan_payload data = Inr rs"
    and out: "out = sort_key price_value (appended rs)"
    by (auto simp: all_flights_def split: sum.splits)
  from rs obtain sources url where s: "gather_sources data = Inr sources"
    and p: "process_offers url sources = Inr rs"
    by (auto simp: scan_payload_def split: sum.splits)
  note a = process_offers_outcomes [OF p]
  from a have "list_all2 (\<lambda>offer r. is_direct r \<longleftrightarrow> \<not> has_layovers offer \<and> has_segment offer) sources rs"
    by (rule list_all2_mono) blast
  from length_filter_all2 [OF this]
  have "length out = length (filter (\<lambda>offer. \<not> has_layovers offer \<and> has_segment offer) sources)"
    unfolding out by (simp add: length_appended)
  moreover have "mset out = mset (appended rs)" unfolding out by simp
  ultimately show ?thesis using s rs a by blast
qed

text \<open>
  The sample payload: six offers, the fourth with a layover, five flights.
\<close>

lemma sample_payload_direct_only:
  "find_direct_flights (Some sample_payload) = Inr sample_sorted
   \<and> (\<exists>sources. gather_sources sample_payload = Inr sources
         \<and> length sources = 6
         \<and> has_layovers (sources ! 3)
         \<and> length sample_sorted
             = length (filter (\<lambda>offer. \<not> has_layovers offer \<and> has_segment offer) sources))"
proof -
  from find_direct_flights_direct_only [OF sample_payload_flights] obtain sources where
    s: "gather_sources sample_payload = Inr sources"
    and l: "length sample_sorted
             = length (filter (\<lambda>offer. \<not> has_layovers offer \<and> has_segment offer) sources)"
    by blast
  from s have e: "sources = [sample_offer ''Air India'' (PStr ''AI 2425'') (PStr (rupee @ ''4,500'')),
          sample_offer ''IndiGo'' (PStr ''6E 2112'') (PStr (rupee @ ''4,000'')),
          sample_offer ''Air India'' (PStr ''AI 2927'') (PInt 5200),
          layover_offer,
          sample_offer ''SpiceJet'' (PStr ''SG 8169'') (PStr ''bad''),
          sample_offer ''Akasa Air'' (PStr ''QP 1371'') PNone]"
    by (simp add: sample_payload_sources)
  have "has_layovers layover_offer" by code_simp
  with e have "length sources = 6" "has_layovers (sources ! 3)" by simp_all
  with s l sample_payload_flights show ?thesis by blast
qed

text \<open>
  Claim C3: an offer with a layover indicator gives no flight, and every
  offer without one and with at least one route segment gives exactly one
  flight.  Evaluated at a payload of four offers: the first has a stop and is
  skipped, the second has no segments and is reported, the third and the
  fourth have no layover indicator and one segment each.  The price
  \<^verbatim>\<open>1e999\<close> of the fourth makes \<^verbatim>\<open>clean_price\<close> raise
  \<^verbatim>\<open>OverflowError\<close>, which the clause \<^verbatim>\<open>except (KeyError, IndexError)\<close>
  does not catch: the call ends with that exception, and neither the fourth
  offer nor the third gives a flight.
\<close>

theorem find_direct_flights_loses_direct_offers:
  "search_url_of unbounded_price_payload = Inr PNone
   \<and> gather_sources unbounded_price_payload
     = Inr [layover_offer, PDict [(''price'', PInt 3800)],
            sample_offer ''IndiGo'' (PStr ''6E 2112'') (PInt 4000), unbounded_price_offer]
   \<and> process_offers PNone [layover_offer, PDict [(''price'', PInt 3800)],
          sample_offer ''IndiGo'' (PStr ''6E 2112'') (PInt 4000)]
       = Inr [HasLayovers, Malformed KeyError,
              Direct (sample_flight ''IndiGo'' (PStr ''6E 2112'') (PInt 4000) (Fin 4000))]
   \<and> \<not> has_layovers unbounded_price_offer \<and> has_segment unbounded_price_offer
   \<and> process_offer PNone unbounded_price_offer = Inl OverflowError
   \<and> find_direct_flights (Some unbounded_price_payload) = Inl OverflowError"
  by code_simp

subsection \<open>Malformed offers\<close>

text \<open>
  An offer without the key \<^verbatim>\<open>'flights'\<close>, or with an empty list under
  it, raises one of the two exceptions that the loop catches: it is reported
  and the loop goes on.
\<close>

lemma missing_segments_skipped:
  assumes "\<not> has_layovers (PDict flight)"
    and "map_of flight ''flights'' = None \<or> map_of flight ''flights'' = Some (PList [])"
  shows "\<exists>e. process_offer url (PDict flight) = Inr (Malformed e)
           \<and> process_offers url (PDict flight # rest)
               = (case process_offers url rest of
                    Inl e' \<Rightarrow> Inl e' | Inr rs \<Rightarrow> Inr (Malformed e # rs))"
proof -
  from assms(2) have "first_segment flight = Inl KeyError \<or> first_segment flight = Inl IndexError"
    by (auto simp: first_segment_def)
  with assms(1) have "process_offer url (PDict flight) = Inr (Malformed KeyError)
      \<or> process_offer url (PDict flight) = Inr (Malformed IndexError)"
    by (auto simp: caught_def)
  then show ?thesis by auto
qed

lemma incomplete_offers_reported:
  "scan_payload incomplete_payload
     = Inr [Malformed KeyError, Malformed IndexError,
            Direct (sample_flight ''IndiGo'' (PStr ''6E 2112'') (PInt 4000) (Fin 4000))]
   \<and> diagnostics [Malformed KeyError, Malformed IndexError,
            Direct (sample_flight ''IndiGo'' (PStr ''6E 2112'') (PInt 4000) (Fin 4000))]
       = [KeyError, IndexError]
   \<and> find_direct_flights (Some incomplete_payload)
       = Inr [sample_flight ''IndiGo'' (PStr ''6E 2112'') (PInt 4000) (Fin 4000)]"
  by code_simp

text \<open>
  Claim C8: a malformed offer is skipped alone and no offer content makes
  \<^verbatim>\<open>find_direct_flights\<close> raise.  Evaluated at a payload whose first offer
  has \<^verbatim>\<open>null\<close> under \<^verbatim>\<open>'flights'\<close> and whose second offer is well formed:
  \<^verbatim>\<open>flight['flights'][0]\<close> raises \<^verbatim>\<open>TypeError\<close>, which the clause
  \<^verbatim>\<open>except (KeyError, IndexError)\<close> does not catch, and the call ends
  with that exception.
\<close>

theorem find_direct_flights_aborts:
  "find_direct_flights (Some null_segments_payload) = Inl TypeError"
  by code_simp

subsection \<open>The fallback scan\<close>

lemma scan_values_find:
  "scan_values vs = (case find looks_like_flights vs of None \<Rightarrow> [] | Some v \<Rightarrow> (case v of PList xs \<Rightarrow> xs | _ \<Rightarrow> []))"
  by (induction vs) simp_all

lemma looks_like_flights_list: "looks_like_flights v \<Longrightarrow> \<exists>xs. v = PList xs"
  by (cases v rule: looks_like_flights.cases) simp_all

text \<open>
  Against claim C9 as stated (the scan runs only when neither known
  grouping is present): here \<^verbatim>\<open>'best_flights'\<close> is present with an empty
  list, the known groupings give no offer, and the offers come from the
  scan.
\<close>

theorem gather_sources_fallback_counterexample:
  "map_of renamed_payload ''best_flights'' = Some (PList [])
   \<and> known_groupings renamed_payload = Inr []
   \<and> gather_sources (PDict renamed_payload)
       = Inr [sample_offer ''IndiGo'' (PStr ''6E 2112'') (PInt 4000)]"
  by code_simp

text \<open>
  Claim C9, amended: for a dict payload the scan of the top-level values
  supplies the offers exactly when the two known groupings together give
  none, which includes the case that neither is present; the scan takes the
  elements of the first value that is a non-empty list whose first element is
  a dict with the key \<^verbatim>\<open>'flights'\<close>, and of no other value; without such
  a value there are no offers.
\<close>

theorem gather_sources_fallback:
  assumes "gather_sources (PDict data) = Inr sources"
  shows "\<exists>known. known_groupings data = Inr known
           \<and> (map_of data ''best_flights'' = None \<and> map_of data ''other_flights'' = None
                \<longrightarrow> known = [])
           \<and> (known \<noteq> [] \<longrightarrow> sources = known)
           \<and> (known = [] \<longrightarrow>
                (case find looks_like_flights (map snd data) of
                   None \<Rightarrow> sources = []
                 | Some v \<Rightarrow> v = PList sources))"
proof -
  from assms obtain known where k: "known_groupings data = Inr known"
    and s: "sources = (if known = [] then scan_values (map snd data) else known)"
    by (auto split: sum.splits)
  have 1: "map_of data ''best_flights'' = None \<and> map_of data ''other_flights'' = None \<longrightarrow> known = []"
    using k by (auto simp: known_groupings_def extend_from_def)
  have 2: "known = [] \<longrightarrow>
            (case find looks_like_flights (map snd data) of
               None \<Rightarrow> sources = [] | Some v \<Rightarrow> v = PList sources)"
  proof
    assume "known = []"
    with s have ss: "sources = scan_values (map snd data)" by simp
    show "case find looks_like_flights (map snd data) of
            None \<Rightarrow> sources = [] | Some v \<Rightarrow> v = PList sources"
    proof (cases "find looks_like_flights (map snd data)")
      case None
      with ss show ?thesis by (simp add: scan_values_find)
    next
      case (Some v)
      then have "looks_like_flights v" by (auto simp: find_Some_iff)
      then obtain xs where "v = PList xs" by (auto dest: looks_like_flights_list)
      with Some ss show ?thesis by (simp add: scan_values_find)
    qed
  qed
  from k 1 2 s show ?thesis by auto
qed

text \<open>
  The payload above: of its two matching lists only the first is used.
\<close>

theorem gather_sources_fallback_witness:
  "gather_sources (PDict renamed_payload)
     = Inr [sample_offer ''IndiGo'' (PStr ''6E 2112'') (PInt 4000)]
   \<and> known_groupings renamed_payload = Inr []
   \<and> find looks_like_flights (map snd renamed_payload)
       = Some (PList [sample_offer ''IndiGo'' (PStr ''6E 2112'') (PInt 4000)])"
proof -
  have g: "gather_sources (PDict renamed_payload)
             = Inr [sample_offer ''IndiGo'' (PStr ''6E 2112'') (PInt 4000)]"
    by code_simp
  have k: "known_groupings renamed_payload = Inr []" by code_simp
  from gather_sources_fallback [OF g] k
  have "case find looks_like_flights (map snd renamed_payload) of
          None \<Rightarrow> [sample_offer ''IndiGo'' (PStr ''6E 2112'') (PInt 4000)] = []
        | Some v \<Rightarrow> v = PList [sample_offer ''IndiGo'' (PStr ''6E 2112'') (PInt 4000)]"
    by auto
  then have "find looks_like_flights (map snd renamed_payload)
       = Some (PList [sample_offer ''IndiGo'' (PStr ''6E 2112'') (PInt 4000)])"
    by (simp split: option.splits)
  with g k show ?thesis by blast
qed

section \<open>Properties of the double arithmetic\<close>

text \<open>
  \<^verbatim>\<open>round_double\<close> gives a multiple of the unit in the last place, of at
  most 53 bits and at most half a unit away from its argument; a tie goes to
  the even multiple.
\<close>

lemma pow2_powi: "pow2 e = 2 powi e"
  by (simp add: pow2_def power_int_def power_one_over inverse_eq_divide)

lemma pow2_pos: "0 < pow2 e"
  by (simp add: pow2_powi)

lemma bit_length_bounds:
  "0 < n \<Longrightarrow> 0 < bit_length n \<and> 2 ^ nat (bit_length n - 1) \<le> n \<and> n < 2 ^ nat (bit_length n)"
proof (induction n rule: bit_length.induct)
  case (1 n)
  show ?case
  proof (cases "n div 2 = 0")
    case True
    with "1.prems" have "n = 1" by presburger
    moreover have "bit_length 1 = 1"
      by (simp add: bit_length.simps [of 1] bit_length.simps [of 0])
    ultimately show ?thesis by simp
  next
    case False
    with "1.prems" have m: "0 < n div 2" by presburger
    with "1.prems" "1.IH" have ih: "0 < bit_length (n div 2)"
      "2 ^ nat (bit_length (n div 2) - 1) \<le> n div 2"
      "n div 2 < 2 ^ nat (bit_length (n div 2))" by simp_all
    have bl: "bit_length n = 1 + bit_length (n div 2)"
      using "1.prems" by (subst bit_length.simps) simp
    have e1: "nat (bit_length n - 1) = Suc (nat (bit_length (n div 2) - 1))"
      using bl ih(1) by simp
    have e2: "nat (bit_length n) = Suc (nat (bit_length (n div 2)))"
      using bl ih(1) by simp
    have "2 * 2 ^ nat (bit_length (n div 2) - 1) \<le> 2 * (n div 2)" using ih(2) by simp
    also have "\<dots> \<le> n" by presburger
    finally have lo: "2 ^ nat (bit_length n - 1) \<le> n" unfolding e1 by simp
    have "n < 2 * (n div 2) + 2" by presburger
    also have "\<dots> \<le> 2 * 2 ^ nat (bit_length (n div 2))" using ih(3) by simp
    finally have hi: "n < 2 ^ nat (bit_length n)" unfolding e2 by simp
    from lo hi bl ih(1) show ?thesis by simp
  qed
qed

lemma bit_length_powi:
  assumes "0 < n"
  shows "(2::rat) powi (bit_length n - 1) \<le> of_int n" and "of_int n < (2::rat) powi (bit_length n)"
proof -
  from bit_length_bounds [OF assms] have b: "0 < bit_length n"
    and lo: "2 ^ nat (bit_length n - 1) \<le> n" and hi: "n < 2 ^ nat (bit_length n)" by simp_all
  from lo have "(of_int (2 ^ nat (bit_length n - 1)) :: rat) \<le> of_int n" by (simp only: of_int_le_iff)
  then show "(2::rat) powi (bit_length n - 1) \<le> of_int n"
    using b by (simp add: power_int_def)
  from hi have "(of_int n :: rat) < of_int (2 ^ nat (bit_length n))" by (simp only: of_int_less_iff)
  then show "of_int n < (2::rat) powi (bit_length n)"
    using b by (simp add: power_int_def)
qed

lemma floor_log2_bounds:
  assumes "0 < a"
  shows "pow2 (floor_log2 a) \<le> a \<and> a < pow2 (floor_log2 a + 1)"
proof -
  obtain p q where pq: "quotient_of a = (p, q)" by (cases "quotient_of a")
  then have q: "0 < q" and a: "a = of_int p / of_int q"
    by (simp_all add: quotient_of_denom_pos quotient_of_div)
  with assms have p: "0 < p" by (simp add: zero_less_divide_iff)
  let ?e = "bit_length p - bit_length q"
  have fl: "floor_log2 a = (if pow2 ?e \<le> a then ?e else ?e - 1)"
    by (simp add: floor_log2_def pq Let_def)
  have qpos: "(0::rat) < of_int q" using q by simp
  have up: "a < 2 powi (?e + 1)"
  proof -
    have "a * of_int q = of_int p" using a qpos by simp
    also have "\<dots> < 2 powi (bit_length p)" by (rule bit_length_powi(2) [OF p])
    also have "\<dots> = 2 powi ((?e + 1) + (bit_length q - 1))" by simp
    also have "\<dots> = 2 powi (?e + 1) * 2 powi (bit_length q - 1)"
      by (rule power_int_add) simp
    also have "\<dots> \<le> 2 powi (?e + 1) * of_int q"
      using bit_length_powi(1) [OF q] by (intro mult_left_mono) simp_all
    finally show ?thesis using qpos by simp
  qed
  have low: "2 powi (?e - 1) \<le> a"
  proof -
    have "(2::rat) powi (?e - 1) * of_int q \<le> 2 powi (?e - 1) * 2 powi (bit_length q)"
      using bit_length_powi(2) [OF q] by (intro mult_left_mono) simp_all
    also have "\<dots> = 2 powi ((?e - 1) + bit_length q)"
      by (rule power_int_add [symmetric]) simp
    also have "\<dots> = 2 powi (bit_length p - 1)" by simp
    also have "\<dots> \<le> of_int p" by (rule bit_length_powi(1) [OF p])
    also have "\<dots> = a * of_int q" using a qpos by simp
    finally show ?thesis using qpos by simp
  qed
  show ?thesis
  proof (cases "pow2 ?e \<le> a")
    case True
    with fl up show ?thesis by (simp add: pow2_powi)
  next
    case False
    with fl low show ?thesis by (simp add: pow2_powi)
  qed
qed

lemma round_half_even_near: "\<bar>of_int (round_half_even q) - q\<bar> \<le> 1 / 2"
proof -
  define n where "n = \<lfloor>q\<rfloor>"
  define d where "d = q - of_int n"
  have d: "0 \<le> d" "d < 1" unfolding d_def n_def by linarith+
  have q: "q = of_int n + d" unfolding d_def by simp
  have r: "round_half_even q
             = (if d < 1 / 2 then n else if 1 / 2 < d then n + 1
                else if even n then n else n + 1)"
    by (simp only: round_half_even_def Let_def n_def d_def)
  consider (lo) "d < 1 / 2" | (hi) "1 / 2 < d" | (tie) "d = 1 / 2" by linarith
  then show ?thesis
  proof cases
    case lo
    with r have "round_half_even q = n" by simp
    with d lo q show ?thesis by simp
  next
    case hi
    with r have "round_half_even q = n + 1" by simp
    with d hi q show ?thesis by simp
  next
    case tie
    with r have "round_half_even q = n \<or> round_half_even q = n + 1" by simp
    with tie q show ?thesis by auto
  qed
qed

lemma round_half_even_bounds: "\<lfloor>q\<rfloor> \<le> round_half_even q \<and> round_half_even q \<le> \<lfloor>q\<rfloor> + 1"
  by (simp add: round_half_even_def Let_def)

lemma round_half_even_tie: "q - of_int \<lfloor>q\<rfloor> = 1 / 2 \<Longrightarrow> even (round_half_even q)"
  by (simp add: round_half_even_def Let_def)

lemma round_double_near:
  assumes "round_double r = FloatVal v"
  shows "\<exists>m. \<bar>m\<bar> \<le> 2 ^ 53
           \<and> v = of_int m * pow2 (max (floor_log2 \<bar>r\<bar>) (- 1022) - 52)
           \<and> \<bar>v - r\<bar> \<le> pow2 (max (floor_log2 \<bar>r\<bar>) (- 1022) - 52) / 2"
proof (cases "r = 0")
  case True
  with assms have "v = 0" by (simp add: round_double_def)
  with True have "\<bar>0::int\<bar> \<le> 2 ^ 53
      \<and> v = of_int 0 * pow2 (max (floor_log2 \<bar>r\<bar>) (- 1022) - 52)
      \<and> \<bar>v - r\<bar> \<le> pow2 (max (floor_log2 \<bar>r\<bar>) (- 1022) - 52) / 2"
    using pow2_pos [of "max (floor_log2 \<bar>r\<bar>) (- 1022) - 52"] by simp
  then show ?thesis by blast
next
  case False
  define a where "a = \<bar>r\<bar>"
  define e where "e = max (floor_log2 a) (- 1022)"
  define ulp where "ulp = pow2 (e - 52)"
  define m where "m = round_half_even (a / ulp)"
  have apos: "0 < a" using False by (simp add: a_def)
  have upos: "0 < ulp" by (simp add: ulp_def pow2_pos)
  have rd: "round_double r
              = (if 1024 \<le> floor_log2 (of_int m * ulp)
                 then (if 0 < r then FloatInf else FloatNegInf)
                 else FloatVal (if 0 < r then of_int m * ulp else - (of_int m * ulp)))"
    using False by (simp only: round_double_def Let_def a_def e_def ulp_def m_def if_False)
  with assms have v: "v = (if 0 < r then of_int m * ulp else - (of_int m * ulp))"
    by (simp split: if_splits)
  have "\<bar>of_int m - a / ulp\<bar> \<le> 1 / 2" unfolding m_def by (rule round_half_even_near)
  then have "\<bar>of_int m - a / ulp\<bar> * ulp \<le> 1 / 2 * ulp"
    using upos by (intro mult_right_mono) simp_all
  moreover have "\<bar>of_int m - a / ulp\<bar> * ulp = \<bar>of_int m * ulp - a\<bar>"
  proof -
    have "\<bar>of_int m - a / ulp\<bar> * ulp = \<bar>(of_int m - a / ulp) * ulp\<bar>"
      using upos by (simp add: abs_mult)
    also have "(of_int m - a / ulp) * ulp = of_int m * ulp - a"
      using upos by (simp add: left_diff_distrib)
    finally show ?thesis .
  qed
  ultimately have near: "\<bar>of_int m * ulp - a\<bar> \<le> ulp / 2" by simp
  have "\<bar>v - r\<bar> = \<bar>of_int m * ulp - a\<bar>"
  proof (cases "0 < r")
    case True
    with v show ?thesis by (simp add: a_def)
  next
    case neg: False
    with False have "a = - r" by (simp add: a_def)
    moreover from neg v have "v = - (of_int m * ulp)" by simp
    ultimately have "v - r = - (of_int m * ulp - a)" by simp
    then show ?thesis by (simp only: abs_minus_cancel)
  qed
  with near have 1: "\<bar>v - r\<bar> \<le> ulp / 2" by simp
  have qpos: "0 < a / ulp" using apos upos by simp
  then have f0: "0 \<le> \<lfloor>a / ulp\<rfloor>" by simp
  have bnd: "\<lfloor>a / ulp\<rfloor> \<le> m" "m \<le> \<lfloor>a / ulp\<rfloor> + 1"
    using round_half_even_bounds [of "a / ulp"] by (simp_all only: m_def)
  from f0 bnd(1) have m0: "0 \<le> m" by (rule order_trans)
  have "a < pow2 (floor_log2 a + 1)" using floor_log2_bounds [OF apos] by simp
  also have "\<dots> \<le> pow2 (e + 1)"
    unfolding pow2_powi by (rule power_int_increasing) (simp_all add: e_def)
  also have "\<dots> = 2 powi (53 + (e - 52))"
  proof -
    have "e + 1 = 53 + (e - 52)" by simp
    then show ?thesis by (simp only: pow2_powi)
  qed
  also have "\<dots> = 2 powi 53 * 2 powi (e - 52)" by (rule power_int_add) simp
  finally have "a < 2 ^ 53 * ulp" by (simp add: ulp_def pow2_powi)
  then have "a / ulp < 2 ^ 53" using upos by (simp add: pos_divide_less_eq)
  then have "a / ulp < of_int (2 ^ 53)" by simp
  then have "\<lfloor>a / ulp\<rfloor> < 2 ^ 53" by (simp only: floor_less_iff)
  with bnd(2) have "m \<le> 2 ^ 53" by linarith
  with m0 have 2: "\<bar>m\<bar> \<le> 2 ^ 53" by simp
  have 3: "v = of_int (if 0 < r then m else - m) * ulp" using v by simp
  have 4: "\<bar>if 0 < r then m else - m\<bar> \<le> 2 ^ 53" using 2 by simp
  from 1 3 4 show ?thesis unfolding ulp_def e_def a_def by blast
qed

subsection \<open>Rounding to the nearest double\<close>

text \<open>
  \<^verbatim>\<open>round_double\<close> meets the declarative account of rounding: its
  result is a double nearest to the argument, the even one of two nearest,
  and an infinity exactly from half a unit above the largest double on.  The
  facts are first shown for the scaled significand of a positive argument.
\<close>

lemma round_half_even_nearest: "\<bar>of_int (round_half_even q) - q\<bar> \<le> \<bar>of_int k - q\<bar>"
proof (cases "k = round_half_even q")
  case True
  then show ?thesis by simp
next
  case False
  then have "1 \<le> \<bar>k - round_half_even q\<bar>" by simp
  then have "(1::rat) \<le> \<bar>of_int k - of_int (round_half_even q)\<bar>"
    by (metis of_int_1 of_int_abs of_int_diff of_int_le_iff)
  also have "\<dots> \<le> \<bar>of_int k - q\<bar> + \<bar>of_int (round_half_even q) - q\<bar>" by simp
  finally show ?thesis using round_half_even_near [of q] by simp
qed

lemma pow2_add: "pow2 (i + j) = pow2 i * pow2 j"
  unfolding pow2_powi by (rule power_int_add) simp

lemma pow2_mono: "i \<le> j \<Longrightarrow> pow2 i \<le> pow2 j"
  unfolding pow2_powi by (rule power_int_increasing) simp_all

lemma pow2_nat: "0 \<le> i \<Longrightarrow> pow2 i = of_int (2 ^ nat i)"
  by (simp add: pow2_def)

lemma is_double_minus: "is_double d \<Longrightarrow> is_double (- d)"
proof -
  assume "is_double d"
  then obtain m e where "\<bar>m\<bar> < 2 ^ 53" "- 1074 \<le> e" "e \<le> 971" "d = of_int m * pow2 e"
    unfolding is_double_def by blast
  then have "\<bar>- m\<bar> < 2 ^ 53 \<and> - 1074 \<le> e \<and> e \<le> 971 \<and> - d = of_int (- m) * pow2 e"
    by simp
  then show ?thesis unfolding is_double_def by blast
qed

lemma round_core_nearest:
  fixes a :: rat
  assumes apos: "0 < a"
    and e: "e = max (floor_log2 a) (- 1022)"
    and ulp: "ulp = pow2 (e - 52)"
    and m: "m = round_half_even (a / ulp)"
    and d: "is_double d"
  shows "\<bar>of_int m * ulp - a\<bar> \<le> \<bar>d - a\<bar>"
    and "(\<exists>n. d = of_int n * ulp) \<or> \<bar>of_int m * ulp - a\<bar> < \<bar>d - a\<bar>"
proof -
  have upos: "0 < ulp" by (simp add: ulp pow2_pos)
  have scale: "\<bar>of_int n * ulp - a\<bar> = \<bar>of_int n - a / ulp\<bar> * ulp" for n :: int
  proof -
    have "of_int n * ulp - a = (of_int n - a / ulp) * ulp"
      using upos by (simp add: left_diff_distrib)
    then show ?thesis using upos by (simp add: abs_mult)
  qed
  have mult: "\<bar>of_int m * ulp - a\<bar> \<le> \<bar>of_int n * ulp - a\<bar>" for n :: int
    unfolding scale m using upos round_half_even_nearest [of "a / ulp" n]
    by (intro mult_right_mono) simp_all
  from d obtain n0 k0 where n0: "\<bar>n0\<bar> < 2 ^ 53" and k0: "- 1074 \<le> k0" "k0 \<le> 971"
    and dd: "d = of_int n0 * pow2 k0"
    unfolding is_double_def by blast
  show "(\<exists>n. d = of_int n * ulp) \<or> \<bar>of_int m * ulp - a\<bar> < \<bar>d - a\<bar>"
  proof (cases "e - 52 \<le> k0")
    case True
    then have "pow2 k0 = pow2 (k0 - (e - 52)) * ulp"
      unfolding ulp by (simp add: pow2_add [symmetric])
    also have "pow2 (k0 - (e - 52)) = of_int (2 ^ nat (k0 - (e - 52)))"
      using True by (intro pow2_nat) simp
    finally have "d = of_int (n0 * 2 ^ nat (k0 - (e - 52))) * ulp"
      unfolding dd by simp
    then show ?thesis by blast
  next
    case False
    with k0(1) have "- 1022 < e" by simp
    with e have ef: "e = floor_log2 a" by simp
    with floor_log2_bounds [OF apos] have lo: "pow2 e \<le> a" by simp
    have "\<bar>d\<bar> = of_int \<bar>n0\<bar> * pow2 k0"
      unfolding dd using pow2_pos [of k0] by (simp add: abs_mult)
    also have "\<dots> \<le> of_int (2 ^ 53 - 1) * pow2 k0"
    proof (rule mult_right_mono)
      from n0 have "\<bar>n0\<bar> \<le> 2 ^ 53 - 1" by simp
      then show "(of_int \<bar>n0\<bar> :: rat) \<le> of_int (2 ^ 53 - 1)" by (simp only: of_int_le_iff)
      show "0 \<le> pow2 k0" using pow2_pos [of k0] by simp
    qed
    also have "\<dots> < of_int (2 ^ 53) * pow2 k0"
      using pow2_pos [of k0] by (intro mult_strict_right_mono) simp_all
    also have "\<dots> = pow2 53 * pow2 k0" by (simp add: pow2_def)
    also have "\<dots> = pow2 (53 + k0)" by (simp only: pow2_add)
    also have "\<dots> \<le> pow2 e" using False by (intro pow2_mono) simp
    finally have dlt: "\<bar>d\<bar> < pow2 e" .
    have "pow2 e = pow2 52 * ulp" unfolding ulp by (simp add: pow2_add [symmetric])
    also have "pow2 52 = of_int (2 ^ 52)" by (simp add: pow2_def)
    finally have pe: "pow2 e = of_int (2 ^ 52) * ulp" .
    have "\<bar>of_int m * ulp - a\<bar> \<le> \<bar>pow2 e - a\<bar>" unfolding pe by (rule mult)
    also have "\<dots> = a - pow2 e" using lo by simp
    also have "\<dots> < a - \<bar>d\<bar>" using dlt by simp
    also have "\<dots> \<le> \<bar>d - a\<bar>" by simp
    finally show ?thesis by blast
  qed
  then show "\<bar>of_int m * ulp - a\<bar> \<le> \<bar>d - a\<bar>"
    using mult by auto
qed

lemma round_core_tie:
  fixes a :: rat
  assumes apos: "0 < a"
    and e: "e = max (floor_log2 a) (- 1022)"
    and ulp: "ulp = pow2 (e - 52)"
    and m: "m = round_half_even (a / ulp)"
    and d: "is_double d"
    and ne: "d \<noteq> of_int m * ulp"
    and tie: "\<bar>d - a\<bar> = \<bar>of_int m * ulp - a\<bar>"
  shows "\<exists>k. even k \<and> of_int m * ulp = of_int k * \<bar>d - of_int m * ulp\<bar>"
proof -
  have upos: "0 < ulp" by (simp add: ulp pow2_pos)
  define q where "q = a / ulp"
  have scale: "\<bar>of_int n * ulp - a\<bar> = \<bar>of_int n - q\<bar> * ulp" for n :: int
  proof -
    have "of_int n * ulp - a = (of_int n - q) * ulp"
      using upos by (simp add: left_diff_distrib q_def)
    then show ?thesis using upos by (simp add: abs_mult)
  qed
  from round_core_nearest(2) [OF apos e ulp m d] tie
  obtain n where n: "d = of_int n * ulp" by auto
  with ne have nm: "n \<noteq> m" by auto
  from tie have "\<bar>of_int n - q\<bar> * ulp = \<bar>of_int m - q\<bar> * ulp"
    unfolding n scale .
  with upos have eq: "\<bar>of_int n - q\<bar> = \<bar>of_int m - q\<bar>" by simp
  have near: "\<bar>of_int m - q\<bar> \<le> 1 / 2"
    unfolding m q_def by (rule round_half_even_near)
  have "\<bar>(of_int n :: rat) - of_int m\<bar> \<le> \<bar>of_int n - q\<bar> + \<bar>of_int m - q\<bar>" by simp
  with eq near have "\<bar>(of_int n :: rat) - of_int m\<bar> \<le> 1" by simp
  then have "\<bar>(of_int (n - m) :: rat)\<bar> \<le> of_int 1" by simp
  then have "\<bar>n - m\<bar> \<le> 1" by (simp only: of_int_abs [symmetric] of_int_le_iff)
  with nm have one: "n = m + 1 \<or> n = m - 1" by auto
  have half: "q - of_int \<lfloor>q\<rfloor> = 1 / 2"
  proof -
    from one eq have "q = of_int m + 1 / 2 \<or> q = of_int m - 1 / 2"
      by (auto simp: abs_if split: if_splits)
    then show ?thesis
    proof
      assume h: "q = of_int m + 1 / 2"
      then have "\<lfloor>q\<rfloor> = m" by (simp add: floor_unique)
      with h show ?thesis by simp
    next
      assume h: "q = of_int m - 1 / 2"
      then have "\<lfloor>q\<rfloor> = m - 1" by (simp add: floor_unique)
      with h show ?thesis by simp
    qed
  qed
  have ev: "even m" unfolding m q_def [symmetric]
    using half by (rule round_half_even_tie)
  have "d - of_int m * ulp = of_int (n - m) * ulp" unfolding n by (simp add: left_diff_distrib)
  then have "\<bar>d - of_int m * ulp\<bar> = \<bar>of_int (n - m) :: rat\<bar> * ulp"
    using upos by (simp add: abs_mult)
  also have "\<bar>of_int (n - m) :: rat\<bar> = 1" using one by auto
  finally have "\<bar>d - of_int m * ulp\<bar> = ulp" by simp
  with ev show ?thesis by auto
qed

lemma round_core_range:
  fixes a :: rat
  assumes apos: "0 < a"
    and e: "e = max (floor_log2 a) (- 1022)"
    and ulp: "ulp = pow2 (e - 52)"
    and m: "m = round_half_even (a / ulp)"
  shows "0 \<le> m" and "m \<le> 2 ^ 53" and "e = floor_log2 a \<Longrightarrow> 2 ^ 52 \<le> m"
proof -
  have upos: "0 < ulp" by (simp add: ulp pow2_pos)
  have bnd: "\<lfloor>a / ulp\<rfloor> \<le> m" "m \<le> \<lfloor>a / ulp\<rfloor> + 1"
    using round_half_even_bounds [of "a / ulp"] by (simp_all only: m)
  have "0 < a / ulp" using apos upos by simp
  then have "0 \<le> \<lfloor>a / ulp\<rfloor>" by simp
  with bnd(1) show "0 \<le> m" by linarith
  have "a < pow2 (floor_log2 a + 1)" using floor_log2_bounds [OF apos] by simp
  also have "\<dots> \<le> pow2 (e + 1)" by (rule pow2_mono) (simp add: e)
  also have "e + 1 = 53 + (e - 52)" by simp
  also have "pow2 (53 + (e - 52)) = pow2 53 * ulp" unfolding ulp by (rule pow2_add)
  also have "pow2 53 = of_int (2 ^ 53)" by (simp add: pow2_def)
  finally have "a / ulp < of_int (2 ^ 53)" using upos by (simp add: pos_divide_less_eq)
  then have "\<lfloor>a / ulp\<rfloor> < 2 ^ 53" by (simp only: floor_less_iff)
  with bnd(2) show "m \<le> 2 ^ 53" by linarith
  show "2 ^ 52 \<le> m" if ef: "e = floor_log2 a"
  proof -
    have "pow2 52 * ulp = pow2 (52 + (e - 52))" unfolding ulp by (rule pow2_add [symmetric])
    also have "52 + (e - 52) = e" by simp
    also have "pow2 e \<le> a" using floor_log2_bounds [OF apos] ef by simp
    finally have "pow2 52 \<le> a / ulp" using upos by (simp add: pos_le_divide_eq)
    moreover have "pow2 52 = of_int (2 ^ 52)" by (simp add: pow2_def)
    ultimately have "of_int (2 ^ 52) \<le> a / ulp" by simp
    then have "2 ^ 52 \<le> \<lfloor>a / ulp\<rfloor>" by (simp only: le_floor_iff)
    with bnd(1) show ?thesis by linarith
  qed
qed

lemma overflow_bound_eq: "overflow_bound = (of_int (2 ^ 53) - 1 / 2) * pow2 971"
proof -
  have "pow2 1024 = pow2 (53 + 971)" by simp
  also have "\<dots> = pow2 53 * pow2 971" by (rule pow2_add)
  also have "pow2 53 = of_int (2 ^ 53)" by (simp add: pow2_def)
  finally have 1: "pow2 1024 = of_int (2 ^ 53) * pow2 971" .
  have "pow2 970 = pow2 (- 1 + 971)" by simp
  also have "\<dots> = pow2 (- 1) * pow2 971" by (rule pow2_add)
  also have "pow2 (- 1) = 1 / 2" by (simp add: pow2_def)
  finally have 2: "pow2 970 = 1 / 2 * pow2 971" .
  show ?thesis unfolding overflow_bound_def 1 2 by (simp add: left_diff_distrib)
qed

lemma overflow_bound_bounds: "pow2 1023 \<le> overflow_bound" "overflow_bound < pow2 1024"
proof -
  have "pow2 1024 = pow2 (1 + 1023)" by simp
  also have "\<dots> = pow2 1 * pow2 1023" by (rule pow2_add)
  also have "pow2 1 = 2" by (simp add: pow2_def)
  finally have 1: "pow2 1024 = 2 * pow2 1023" .
  have "pow2 970 \<le> pow2 1023" by (rule pow2_mono) simp
  with 1 show "pow2 1023 \<le> overflow_bound" unfolding overflow_bound_def by simp
  show "overflow_bound < pow2 1024" unfolding overflow_bound_def using pow2_pos [of 970] by simp
qed

lemma scale_mono: "i \<le> j \<Longrightarrow> 0 < u \<Longrightarrow> of_int i * u \<le> (of_int j :: rat) * u"
  by (rule mult_right_mono) simp_all

lemma scale_strict_mono: "i < j \<Longrightarrow> 0 < u \<Longrightarrow> of_int i * u < (of_int j :: rat) * u"
  by (rule mult_strict_right_mono) simp_all

lemma pow2_less_imp: "pow2 i < pow2 j \<Longrightarrow> i < j"
  using pow2_mono [of j i] by (cases "i < j") simp_all

lemma round_core_overflow:
  fixes a :: rat
  assumes apos: "0 < a"
    and e: "e = max (floor_log2 a) (- 1022)"
    and ulp: "ulp = pow2 (e - 52)"
    and m: "m = round_half_even (a / ulp)"
  shows "pow2 1024 \<le> of_int m * ulp \<longleftrightarrow> overflow_bound \<le> a"
proof
  have upos: "0 < ulp" by (simp add: ulp pow2_pos)
  note rng = round_core_range [OF apos e ulp m]
  note fl = floor_log2_bounds [OF apos]
  {
    assume big: "overflow_bound \<le> a"
    have "pow2 1023 \<le> a" using overflow_bound_bounds(1) big by simp
    also have "a < pow2 (floor_log2 a + 1)" using fl by simp
    finally have "1023 < floor_log2 a + 1" by (rule pow2_less_imp)
    then have f: "1023 \<le> floor_log2 a" by simp
    with e have ef: "e = floor_log2 a" by simp
    show "pow2 1024 \<le> of_int m * ulp"
    proof (cases "1024 \<le> e")
      case True
      have "pow2 1024 \<le> pow2 e" using True by (rule pow2_mono)
      also have "e = 52 + (e - 52)" by simp
      also have "pow2 (52 + (e - 52)) = pow2 52 * ulp" unfolding ulp by (rule pow2_add)
      also have "pow2 52 = of_int (2 ^ 52)" by (simp add: pow2_def)
      also have "of_int (2 ^ 52) * ulp \<le> of_int m * ulp"
        using rng(3) [OF ef] upos by (rule scale_mono)
      finally show ?thesis .
    next
      case False
      with f ef have e1023: "e = 1023" by simp
      then have u: "ulp = pow2 971" unfolding ulp by simp
      define q where "q = a / ulp"
      have qb: "of_int (2 ^ 53) - 1 / 2 \<le> q"
        using big upos unfolding overflow_bound_eq u [symmetric] q_def
        by (simp add: pos_le_divide_eq)
      have near: "\<bar>of_int m - q\<bar> \<le> 1 / 2" unfolding m q_def by (rule round_half_even_near)
      have m53: "2 ^ 53 \<le> m"
      proof (rule ccontr)
        assume "\<not> 2 ^ 53 \<le> m"
        then have ml: "m \<le> 2 ^ 53 - 1" by simp
        then have "(of_int m :: rat) \<le> of_int (2 ^ 53 - 1)" by (simp only: of_int_le_iff)
        then have mr: "(of_int m :: rat) \<le> of_int (2 ^ 53) - 1" by simp
        with qb near have qe: "q = of_int (2 ^ 53) - 1 / 2" and me: "of_int m = (of_int (2 ^ 53) :: rat) - 1"
          by (auto simp: abs_if split: if_splits)
        from me have "(of_int m :: rat) = of_int (2 ^ 53 - 1)" by simp
        then have mv: "m = 2 ^ 53 - 1" by (simp only: of_int_eq_iff)
        have "q = of_int (2 ^ 53 - 1) + 1 / 2" using qe by simp
        then have "\<lfloor>q\<rfloor> = 2 ^ 53 - 1" by (simp add: floor_unique)
        with qe have "q - of_int \<lfloor>q\<rfloor> = 1 / 2" by simp
        then have "even (round_half_even q)" by (rule round_half_even_tie)
        then have "even m" by (simp add: m q_def)
        with mv show False by simp
      qed
      have "pow2 1024 = pow2 (53 + 971)" by simp
      also have "\<dots> = pow2 53 * pow2 971" by (rule pow2_add)
      also have "pow2 53 = of_int (2 ^ 53)" by (simp add: pow2_def)
      also have "of_int (2 ^ 53) * pow2 971 \<le> of_int m * pow2 971"
        using m53 pow2_pos [of 971] by (rule scale_mono)
      finally show ?thesis unfolding u .
    qed
  }
  {
    assume over: "pow2 1024 \<le> of_int m * ulp"
    show "overflow_bound \<le> a"
    proof (rule ccontr)
      assume "\<not> overflow_bound \<le> a"
      then have small: "a < overflow_bound" by simp
      have "pow2 (floor_log2 a) \<le> a" using fl by simp
      also have "a < pow2 1024" using small overflow_bound_bounds(2) by simp
      finally have "floor_log2 a < 1024" by (rule pow2_less_imp)
      with e have e1023: "e \<le> 1023" by simp
      have "of_int m * ulp < pow2 1024"
      proof (cases "e = 1023")
        case False
        with e1023 have "e + 1 \<le> 1023" by simp
        have "of_int m * ulp \<le> of_int (2 ^ 53) * ulp"
          using rng(2) upos by (rule scale_mono)
        also have "of_int (2 ^ 53) = pow2 53" by (simp add: pow2_def)
        also have "pow2 53 * ulp = pow2 (53 + (e - 52))" unfolding ulp by (rule pow2_add [symmetric])
        also have "53 + (e - 52) = e + 1" by simp
        also have "pow2 (e + 1) \<le> pow2 1023" using \<open>e + 1 \<le> 1023\<close> by (rule pow2_mono)
        also have "pow2 1023 < pow2 1024"
          using overflow_bound_bounds by (rule le_less_trans)
        finally show ?thesis .
      next
        case True
        then have u: "ulp = pow2 971" unfolding ulp by simp
        define q where "q = a / ulp"
        have qb: "q < of_int (2 ^ 53) - 1 / 2"
          using small upos unfolding overflow_bound_eq u [symmetric] q_def
          by (simp add: pos_divide_less_eq)
        have near: "\<bar>of_int m - q\<bar> \<le> 1 / 2" unfolding m q_def by (rule round_half_even_near)
        with qb have "(of_int m :: rat) < of_int (2 ^ 53)" by (auto simp: abs_if split: if_splits)
        then have "m < 2 ^ 53" by (simp only: of_int_less_iff)
        then have "(of_int m :: rat) * pow2 971 < of_int (2 ^ 53) * pow2 971"
          using pow2_pos [of 971] by (rule scale_strict_mono)
        also have "of_int (2 ^ 53) = pow2 53" by (simp add: pow2_def)
        also have "pow2 53 * pow2 971 = pow2 (53 + 971)" by (rule pow2_add [symmetric])
        finally show ?thesis unfolding u by simp
      qed
      with over show False by simp
    qed
  }
qed

lemma round_core_double:
  fixes a :: rat
  assumes apos: "0 < a"
    and e: "e = max (floor_log2 a) (- 1022)"
    and ulp: "ulp = pow2 (e - 52)"
    and m: "m = round_half_even (a / ulp)"
    and fin: "of_int m * ulp < pow2 1024"
  shows "is_double (of_int m * ulp)"
proof -
  have upos: "0 < ulp" by (simp add: ulp pow2_pos)
  note rng = round_core_range [OF apos e ulp m]
  have elo: "- 1022 \<le> e" using e by simp
  show ?thesis
  proof (cases "m = 2 ^ 53")
    case True
    have "of_int m * ulp = pow2 53 * ulp" using True by (simp add: pow2_def)
    also have "\<dots> = pow2 (53 + (e - 52))" unfolding ulp by (rule pow2_add [symmetric])
    also have "53 + (e - 52) = e + 1" by simp
    finally have v: "of_int m * ulp = pow2 (e + 1)" .
    with fin have "e + 1 < 1024" by (simp add: pow2_less_imp)
    have "e + 1 = 52 + (e - 51)" by simp
    then have "pow2 (e + 1) = pow2 (52 + (e - 51))" by (simp only:)
    also have "\<dots> = pow2 52 * pow2 (e - 51)" by (rule pow2_add)
    also have "pow2 52 = of_int (2 ^ 52)" by (simp add: pow2_def)
    finally have "of_int m * ulp = of_int (2 ^ 52) * pow2 (e - 51)" using v by simp
    moreover have "\<bar>2 ^ 52 :: int\<bar> < 2 ^ 53" by simp
    moreover have "- 1074 \<le> e - 51" "e - 51 \<le> 971" using elo \<open>e + 1 < 1024\<close> by simp_all
    ultimately show ?thesis unfolding is_double_def by blast
  next
    case False
    with rng(1,2) have ml: "\<bar>m\<bar> < 2 ^ 53" by simp
    have "e \<le> 1023"
    proof (rule ccontr)
      assume "\<not> e \<le> 1023"
      then have big: "1024 \<le> e" by simp
      with e have ef: "e = floor_log2 a" by simp
      have "pow2 1024 \<le> pow2 e" using big by (rule pow2_mono)
      also have "e = 52 + (e - 52)" by simp
      also have "pow2 (52 + (e - 52)) = pow2 52 * ulp" unfolding ulp by (rule pow2_add)
      also have "pow2 52 = of_int (2 ^ 52)" by (simp add: pow2_def)
      also have "of_int (2 ^ 52) * ulp \<le> of_int m * ulp"
        using rng(3) [OF ef] upos by (rule scale_mono)
      finally show False using fin by simp
    qed
    with elo have "- 1074 \<le> e - 52" "e - 52 \<le> 971" by simp_all
    with ml show ?thesis unfolding is_double_def ulp by blast
  qed
qed

lemma floor_log2_zero: "floor_log2 0 = - 2"
proof -
  have "bit_length 0 = 0" by (simp add: bit_length.simps [of 0])
  moreover have "bit_length 1 = 1"
    by (simp add: bit_length.simps [of 1] bit_length.simps [of 0])
  ultimately show ?thesis by (simp add: floor_log2_def pow2_def)
qed

lemma floor_log2_overflow:
  assumes "0 \<le> v"
  shows "1024 \<le> floor_log2 v \<longleftrightarrow> pow2 1024 \<le> v"
proof (cases "v = 0")
  case True
  then show ?thesis using pow2_pos [of 1024] by (simp add: floor_log2_zero)
next
  case False
  with assms have "0 < v" by simp
  note b = floor_log2_bounds [OF this]
  show ?thesis
  proof
    assume "1024 \<le> floor_log2 v"
    then have "pow2 1024 \<le> pow2 (floor_log2 v)" by (rule pow2_mono)
    with b show "pow2 1024 \<le> v" by simp
  next
    assume "pow2 1024 \<le> v"
    with b have "pow2 1024 < pow2 (floor_log2 v + 1)" by simp
    then have "1024 < floor_log2 v + 1" by (rule pow2_less_imp)
    then show "1024 \<le> floor_log2 v" by simp
  qed
qed

lemma is_double_zero: "is_double 0"
proof -
  have "\<bar>0::int\<bar> < 2 ^ 53 \<and> - 1074 \<le> (0::int) \<and> (0::int) \<le> 971 \<and> (0::rat) = of_int 0 * pow2 0"
    by simp
  then show ?thesis unfolding is_double_def by blast
qed

lemma round_double_rounds_to: "rounds_to x (round_double x)"
proof (cases "x = 0")
  case True
  have "0 < overflow_bound" using overflow_bound_bounds(1) pow2_pos [of 1023] by simp
  with True show ?thesis by (simp add: round_double_def is_double_zero)
next
  case False
  define a where "a = \<bar>x\<bar>"
  define e where "e = max (floor_log2 a) (- 1022)"
  define ulp where "ulp = pow2 (e - 52)"
  define m where "m = round_half_even (a / ulp)"
  define V where "V = of_int m * ulp"
  have apos: "0 < a" using False by (simp add: a_def)
  have upos: "0 < ulp" by (simp add: ulp_def pow2_pos)
  note rng = round_core_range [OF apos e_def ulp_def m_def]
  have Vnn: "0 \<le> V" unfolding V_def using rng(1) upos by simp
  have rd: "round_double x
              = (if 1024 \<le> floor_log2 V
                 then (if 0 < x then FloatInf else FloatNegInf)
                 else FloatVal (if 0 < x then V else - V))"
    using False by (simp only: round_double_def Let_def a_def e_def ulp_def m_def V_def if_False)
  have over: "1024 \<le> floor_log2 V \<longleftrightarrow> overflow_bound \<le> a"
  proof -
    have "1024 \<le> floor_log2 V \<longleftrightarrow> pow2 1024 \<le> V" by (rule floor_log2_overflow [OF Vnn])
    also have "\<dots> \<longleftrightarrow> overflow_bound \<le> a"
      unfolding V_def by (rule round_core_overflow [OF apos e_def ulp_def m_def])
    finally show ?thesis .
  qed
  show ?thesis
  proof (cases "overflow_bound \<le> a")
    case True
    with rd over have r: "round_double x = (if 0 < x then FloatInf else FloatNegInf)" by simp
    show ?thesis
    proof (cases "0 < x")
      case pos: True
      with True r show ?thesis by (simp add: a_def)
    next
      case neg: False
      with True r show ?thesis by (simp add: a_def)
    qed
  next
    case small: False
    with rd over have r: "round_double x = FloatVal (if 0 < x then V else - V)" by simp
    from small over floor_log2_overflow [OF Vnn] have fin: "of_int m * ulp < pow2 1024"
      by (simp add: V_def)
    have dV: "is_double V" unfolding V_def
      by (rule round_core_double [OF apos e_def ulp_def m_def fin])
    have near: "\<bar>V - a\<bar> \<le> \<bar>d - a\<bar>" if "is_double d" for d
      unfolding V_def by (rule round_core_nearest(1) [OF apos e_def ulp_def m_def that])
    have tie: "\<exists>k. even k \<and> V = of_int k * \<bar>d - V\<bar>"
      if "is_double d" "d \<noteq> V" "\<bar>d - a\<bar> = \<bar>V - a\<bar>" for d
      using round_core_tie [OF apos e_def ulp_def m_def that(1)] that(2,3)
      unfolding V_def by blast
    have xb: "\<bar>x\<bar> < overflow_bound" using small by (simp add: a_def)
    show ?thesis
    proof (cases "0 < x")
      case pos: True
      then have xa: "x = a" by (simp add: a_def)
      from pos r have rv: "round_double x = FloatVal V" by simp
      show ?thesis unfolding rv rounds_to.simps
        using xb dV near tie unfolding xa by blast
    next
      case neg: False
      with False have xa: "x = - a" by (simp add: a_def)
      from neg r have rv: "round_double x = FloatVal (- V)" by simp
      have n1: "\<bar>- V - x\<bar> \<le> \<bar>d - x\<bar>" if d: "is_double d" for d
      proof -
        have "\<bar>- V - x\<bar> = \<bar>V - a\<bar>" unfolding xa by (simp add: abs_minus_commute)
        also have "\<dots> \<le> \<bar>- d - a\<bar>" by (rule near [OF is_double_minus [OF d]])
        also have "\<dots> = \<bar>d - x\<bar>" unfolding xa
          by (metis abs_minus_cancel minus_diff_eq diff_minus_eq_add add.commute uminus_add_conv_diff)
        finally show ?thesis .
      qed
      have n2: "\<exists>k. even k \<and> - V = of_int k * \<bar>d - (- V)\<bar>"
        if d: "is_double d" and ne: "d \<noteq> - V" and t: "\<bar>d - x\<bar> = \<bar>- V - x\<bar>" for d
      proof -
        have 1: "- d \<noteq> V" using ne by auto
        have a1: "\<bar>- d - a\<bar> = \<bar>d - x\<bar>" unfolding xa
          by (metis abs_minus_cancel minus_diff_eq diff_minus_eq_add add.commute uminus_add_conv_diff)
        have a2: "\<bar>- V - x\<bar> = \<bar>V - a\<bar>" unfolding xa by (simp add: abs_minus_commute)
        from t a1 a2 have 2: "\<bar>- d - a\<bar> = \<bar>V - a\<bar>" by simp
        from tie [OF is_double_minus [OF d] 1 2] obtain k
          where k: "even k" "V = of_int k * \<bar>- d - V\<bar>" by blast
        have "\<bar>- d - V\<bar> = \<bar>d - (- V)\<bar>"
          by (metis abs_minus_cancel minus_diff_eq diff_minus_eq_add add.commute uminus_add_conv_diff)
        with k have "even (- k)" "- V = of_int (- k) * \<bar>d - (- V)\<bar>" by simp_all
        then show ?thesis by blast
      qed
      show ?thesis unfolding rv rounds_to.simps
        using xb is_double_minus [OF dV] n1 n2 by blast
    qed
  qed
qed

text \<open>
  The declarative account determines the result, and the sum, the product
  and the bound of the code are the declared ones.
\<close>

lemma overflow_bound_pos: "0 < overflow_bound"
  using overflow_bound_bounds(1) pow2_pos [of 1023] by simp

lemma rounds_to_unique:
  assumes "rounds_to x y" and "rounds_to x z"
  shows "y = z"
proof (cases y)
  case yv: (FloatVal v)
  show ?thesis
  proof (cases z)
    case zv: (FloatVal w)
    show ?thesis
    proof (rule ccontr)
      assume "y \<noteq> z"
      with yv zv have ne: "v \<noteq> w" by simp
      from assms yv zv have dv: "is_double v" and dw: "is_double w" by simp_all
      from assms(1) yv dw have 1: "\<bar>v - x\<bar> \<le> \<bar>w - x\<bar>" by simp
      from assms(2) zv dv have 2: "\<bar>w - x\<bar> \<le> \<bar>v - x\<bar>" by simp
      from 1 2 have e: "\<bar>w - x\<bar> = \<bar>v - x\<bar>" by simp
      from assms(1) yv have "\<forall>d. is_double d \<and> d \<noteq> v \<and> \<bar>d - x\<bar> = \<bar>v - x\<bar>
             \<longrightarrow> (\<exists>k. even k \<and> v = of_int k * \<bar>d - v\<bar>)" by simp
      with dw ne e obtain k where k: "even k" "v = of_int k * \<bar>w - v\<bar>" by metis
      from assms(2) zv have "\<forall>d. is_double d \<and> d \<noteq> w \<and> \<bar>d - x\<bar> = \<bar>w - x\<bar>
             \<longrightarrow> (\<exists>k. even k \<and> w = of_int k * \<bar>d - w\<bar>)" by simp
      with dv ne e obtain j where j: "even j" "w = of_int j * \<bar>v - w\<bar>" by metis
      define u :: rat where "u = \<bar>w - v\<bar>"
      have upos: "0 < u" using ne by (simp add: u_def)
      have vu: "v = of_int k * u" using k(2) by (simp add: u_def)
      have wu: "w = of_int j * u" using j(2) by (simp add: u_def abs_minus_commute)
      have "w - v = of_int (j - k) * u" unfolding vu wu by (simp add: algebra_simps)
      then have "u = \<bar>of_int (j - k) * u\<bar>" unfolding u_def by simp
      also have "\<dots> = of_int \<bar>j - k\<bar> * u" using upos by (simp add: abs_mult)
      finally have "of_int \<bar>j - k\<bar> * u = 1 * u" by simp
      with upos have "(of_int \<bar>j - k\<bar> :: rat) = 1" by simp
      then have "\<bar>j - k\<bar> = 1" by linarith
      moreover from k(1) j(1) have "even (j - k)" by simp
      ultimately show False by presburger
    qed
  qed (use assms yv overflow_bound_pos in auto)
next
  case FloatInf
  with assms overflow_bound_pos show ?thesis by (cases z) auto
next
  case FloatNegInf
  with assms overflow_bound_pos show ?thesis by (cases z) auto
next
  case FloatNaN
  with assms show ?thesis by simp
qed

lemma fadd_one: "sum_with_one t (fadd (FloatVal 1) t)"
  by (cases t) (simp_all add: fadd_def round_double_rounds_to)

lemma fmul_product: "product_of x y (fmul x y)"
  by (cases x; cases y) (simp_all add: fmul_def round_double_rounds_to Let_def)

lemma float_of_int_Inr:
  "float_of_int c = Inr x \<Longrightarrow> \<exists>c'. x = FloatVal c' \<and> rounds_to (of_int c) (FloatVal c')"
proof -
  assume a: "float_of_int c = Inr x"
  then obtain v where v: "round_double (of_int c) = FloatVal v" and x: "x = FloatVal v"
    by (auto simp: float_of_int_def split: pyfloat.splits)
  from round_double_rounds_to [of "of_int c"] v have "rounds_to (of_int c) (FloatVal v)" by simp
  with x show ?thesis by blast
qed

lemma threshold_is_threshold:
  assumes "threshold cheapest tolerance_pct = Inr thr"
  shows "is_threshold cheapest tolerance_pct thr"
proof (cases cheapest)
  case (Fin c)
  with assms obtain x where x: "float_of_int c = Inr x"
    and t: "thr = fmul x (fadd (FloatVal 1) tolerance_pct)"
    by (auto split: sum.splits)
  from float_of_int_Inr [OF x] obtain c' where c: "x = FloatVal c'"
    "rounds_to (of_int c) (FloatVal c')" by blast
  have "product_of (FloatVal c') (fadd (FloatVal 1) tolerance_pct) thr"
    unfolding t c(1) by (rule fmul_product)
  with c(2) fadd_one [of tolerance_pct] have
    "\<exists>c' s. rounds_to (of_int c) (FloatVal c') \<and> sum_with_one tolerance_pct s
             \<and> product_of (FloatVal c') s thr" by blast
  with Fin show ?thesis by simp
next
  case Infinity
  with assms have t: "thr = fmul FloatInf (fadd (FloatVal 1) tolerance_pct)" by simp
  have "product_of FloatInf (fadd (FloatVal 1) tolerance_pct) thr"
    unfolding t by (rule fmul_product)
  with fadd_one [of tolerance_pct] have
    "\<exists>s. sum_with_one tolerance_pct s \<and> product_of FloatInf s thr" by blast
  with Infinity show ?thesis by simp
qed

lemma is_threshold_unique:
  assumes "is_threshold cheapest tolerance_pct y" and "is_threshold cheapest tolerance_pct z"
  shows "y = z"
proof -
  have s: "sum_with_one t a \<Longrightarrow> sum_with_one t b \<Longrightarrow> a = b" for t a b
    by (cases t) (auto dest: rounds_to_unique)
  have p: "product_of a b c \<Longrightarrow> product_of a b d \<Longrightarrow> c = d" for a b c d
    by (cases a; cases b) (auto dest: rounds_to_unique)
  show ?thesis
  proof (cases cheapest)
    case (Fin c)
    with assms obtain c1 s1 c2 s2 where
      1: "rounds_to (of_int c) (FloatVal c1)" "sum_with_one tolerance_pct s1"
         "product_of (FloatVal c1) s1 y"
      and 2: "rounds_to (of_int c) (FloatVal c2)" "sum_with_one tolerance_pct s2"
         "product_of (FloatVal c2) s2 z"
      by auto
    from rounds_to_unique [OF 1(1) 2(1)] have "c1 = c2" by simp
    moreover from s [OF 1(2) 2(2)] have "s1 = s2" .
    ultimately show ?thesis using p 1(3) 2(3) by blast
  next
    case Infinity
    with assms obtain s1 s2 where
      1: "sum_with_one tolerance_pct s1" "product_of FloatInf s1 y"
      and 2: "sum_with_one tolerance_pct s2" "product_of FloatInf s2 z"
      by auto
    from s [OF 1(1) 2(1)] have "s1 = s2" .
    then show ?thesis using p 1(2) 2(2) by blast
  qed
qed

section \<open>Properties of the selection\<close>

subsection \<open>The loops\<close>

lemma py_hash_Inr: "py_hash v = Inr k \<Longrightarrow> k = py_key v \<and> hashable v"
  by (simp add: py_hash_def split: if_splits)

lemma hash_all_Inr: "hash_all vs = Inr ks \<Longrightarrow> ks = map py_key vs"
  by (induction vs arbitrary: ks) (auto split: sum.splits dest: py_hash_Inr)

lemma hash_all_fn: "hash_all (map flight_number fs) = Inr ks \<Longrightarrow> ks = map fn_key fs"
  by (drule hash_all_Inr) (simp add: fn_key_def)

lemma unique_airlines_ext:
  "unique_airlines fs u = Inr u' \<Longrightarrow> \<exists>ext. u' = u @ ext \<and> snd ` set ext \<subseteq> set fs"
proof (induction fs arbitrary: u)
  case Nil
  then show ?case by simp
next
  case (Cons f fs)
  from Cons.prems obtain a where a: "py_hash (airline f) = Inr a"
    and rest: "unique_airlines fs (if a \<in> fst ` set u then u else u @ [(a, f)]) = Inr u'"
    by (auto split: sum.splits)
  from Cons.IH [OF rest] obtain ext
    where ext: "u' = (if a \<in> fst ` set u then u else u @ [(a, f)]) @ ext" "snd ` set ext \<subseteq> set fs"
    by blast
  show ?case
  proof (cases "a \<in> fst ` set u")
    case True
    with ext show ?thesis by auto
  next
    case False
    with ext have "u' = u @ ((a, f) # ext)" "snd ` set ((a, f) # ext) \<subseteq> set (f # fs)"
      by auto
    then show ?thesis by blast
  qed
qed

lemma unique_airlines_keys:
  assumes "unique_airlines fs u = Inr u'"
    and "distinct (map fst u)"
    and "\<forall>x\<in>set u. fst x = airline_key (snd x)"
  shows "distinct (map fst u') \<and> (\<forall>x\<in>set u'. fst x = airline_key (snd x))
         \<and> fst ` set u' = fst ` set u \<union> airline_key ` set fs"
  using assms
proof (induction fs arbitrary: u)
  case Nil
  then show ?case by simp
next
  case (Cons f fs)
  from Cons.prems(1) obtain a where a: "py_hash (airline f) = Inr a"
    and rest: "unique_airlines fs (if a \<in> fst ` set u then u else u @ [(a, f)]) = Inr u'"
    by (auto split: sum.splits)
  have ak: "a = airline_key f"
    using py_hash_Inr [OF a] by (simp add: airline_key_def)
  show ?case
  proof (cases "a \<in> fst ` set u")
    case True
    with rest have r: "unique_airlines fs u = Inr u'" by simp
    note ih = Cons.IH [OF r Cons.prems(2,3)]
    from ih have 1: "fst ` set u' = fst ` set u \<union> airline_key ` set fs" by blast
    have 2: "airline_key f \<in> fst ` set u" using True ak by simp
    have 3: "fst ` set u' = fst ` set u \<union> airline_key ` set (f # fs)"
      unfolding 1 using 2 by auto
    from ih have 4: "distinct (map fst u')" "\<forall>x\<in>set u'. fst x = airline_key (snd x)"
      by blast+
    from 3 4 show ?thesis by blast
  next
    case False
    with rest have r: "unique_airlines fs (u @ [(a, f)]) = Inr u'" by simp
    have d: "distinct (map fst (u @ [(a, f)]))" using Cons.prems(2) False by auto
    have k: "\<forall>x\<in>set (u @ [(a, f)]). fst x = airline_key (snd x)"
      using Cons.prems(3) ak by auto
    note ih = Cons.IH [OF r d k]
    from ih have 1: "fst ` set u' = fst ` set (u @ [(a, f)]) \<union> airline_key ` set fs"
      by blast
    have 3: "fst ` set u' = fst ` set u \<union> airline_key ` set (f # fs)"
      unfolding 1 using ak by auto
    from ih have 4: "distinct (map fst u')" "\<forall>x\<in>set u'. fst x = airline_key (snd x)"
      by blast+
    from 3 4 show ?thesis by blast
  qed
qed

lemma unique_values:
  assumes "unique_airlines flights [] = Inr unique"
  shows "set (map snd unique) \<subseteq> set flights"
    and "distinct (map airline_key (map snd unique))"
    and "airline_key ` set (map snd unique) = airline_key ` set flights"
    and "length unique = card (airline_key ` set flights)"
proof -
  from unique_airlines_ext [OF assms] show "set (map snd unique) \<subseteq> set flights" by auto
  have p2: "distinct (map fst ([]::(key \<times> flight_info) list))" by simp
  have p3: "\<forall>x\<in>set ([]::(key \<times> flight_info) list). fst x = airline_key (snd x)" by simp
  note K = unique_airlines_keys [OF assms p2 p3]
  from K have d: "distinct (map fst unique)" by blast
  from K have k: "\<forall>x\<in>set unique. fst x = airline_key (snd x)" by blast
  from K have "fst ` set unique = fst ` set ([]::(key \<times> flight_info) list) \<union> airline_key ` set flights"
    by blast
  then have s: "fst ` set unique = airline_key ` set flights" by simp
  from k have m: "map fst unique = map airline_key (map snd unique)" by simp
  with d show "distinct (map airline_key (map snd unique))" by simp
  have "airline_key ` set (map snd unique) = set (map airline_key (map snd unique))"
    by (simp only: set_map)
  also have "\<dots> = fst ` set unique" by (simp only: m [symmetric] set_map)
  finally show "airline_key ` set (map snd unique) = airline_key ` set flights"
    using s by simp
  from d have "card (set (map fst unique)) = length (map fst unique)" by (rule distinct_card)
  with s show "length unique = card (airline_key ` set flights)" by simp
qed

text \<open>Every value of the dict is the first flight of its airline in the
  list, hence a cheapest one where the list is sorted by price.\<close>

lemma unique_airlines_first:
  assumes "unique_airlines fs u = Inr u'"
  shows "\<forall>x\<in>set u'. x \<in> set u
           \<or> (fst x \<notin> fst ` set u
              \<and> (\<exists>pre post. fs = pre @ snd x # post \<and> fst x = airline_key (snd x)
                    \<and> fst x \<notin> airline_key ` set pre))"
  using assms
proof (induction fs arbitrary: u)
  case Nil
  then show ?case by simp
next
  case (Cons f fs)
  from Cons.prems obtain a where a: "py_hash (airline f) = Inr a"
    and rest: "unique_airlines fs (if a \<in> fst ` set u then u else u @ [(a, f)]) = Inr u'"
    by (auto split: sum.splits)
  have ak: "a = airline_key f"
    using py_hash_Inr [OF a] by (simp add: airline_key_def)
  show ?case
  proof
    fix x assume x: "x \<in> set u'"
    show "x \<in> set u
           \<or> (fst x \<notin> fst ` set u
              \<and> (\<exists>pre post. f # fs = pre @ snd x # post \<and> fst x = airline_key (snd x)
                    \<and> fst x \<notin> airline_key ` set pre))"
    proof (cases "a \<in> fst ` set u")
      case True
      with rest have r: "unique_airlines fs u = Inr u'" by simp
      from Cons.IH [OF r] x consider "x \<in> set u"
        | pre post where "fst x \<notin> fst ` set u" "fs = pre @ snd x # post"
            "fst x = airline_key (snd x)" "fst x \<notin> airline_key ` set pre"
        by blast
      then show ?thesis
      proof cases
        case 1
        then show ?thesis by simp
      next
        case 2
        from 2(1) True have "fst x \<noteq> a" by auto
        with 2(4) ak have "fst x \<notin> airline_key ` set (f # pre)" by auto
        moreover from 2(2) have "f # fs = (f # pre) @ snd x # post" by simp
        ultimately show ?thesis using 2(1,3) by blast
      qed
    next
      case False
      with rest have r: "unique_airlines fs (u @ [(a, f)]) = Inr u'" by simp
      from Cons.IH [OF r] x consider "x \<in> set u" | "x = (a, f)"
        | pre post where "fst x \<notin> fst ` set (u @ [(a, f)])" "fs = pre @ snd x # post"
            "fst x = airline_key (snd x)" "fst x \<notin> airline_key ` set pre"
        by auto
      then show ?thesis
      proof cases
        case 1
        then show ?thesis by simp
      next
        case 2
        have "f # fs = [] @ snd x # fs" using 2 by simp
        moreover have "fst x \<notin> airline_key ` set []" by simp
        moreover have "fst x = airline_key (snd x)" using 2 ak by simp
        moreover have "fst x \<notin> fst ` set u" using 2 False by simp
        ultimately show ?thesis by blast
      next
        case 3
        from 3(1) have n: "fst x \<notin> fst ` set u" and "fst x \<noteq> a" by auto
        with 3(4) ak have "fst x \<notin> airline_key ` set (f # pre)" by auto
        moreover from 3(2) have "f # fs = (f # pre) @ snd x # post" by simp
        ultimately show ?thesis using n 3(3) by blast
      qed
    qed
  qed
qed

lemma unique_values_cheapest:
  assumes "unique_airlines flights [] = Inr unique"
    and "sorted (map price_value flights)"
    and "p \<in> set (map snd unique)"
    and "f \<in> set flights"
    and "airline_key f = airline_key p"
  shows "price_value p \<le> price_value f"
proof -
  from assms(3) obtain x where x: "x \<in> set unique" "p = snd x" by auto
  with unique_airlines_first [OF assms(1)] obtain pre post where
    fl: "flights = pre @ p # post" and k: "fst x = airline_key p"
    and n: "fst x \<notin> airline_key ` set pre"
    by auto
  have "f \<notin> set pre"
  proof
    assume "f \<in> set pre"
    then have "airline_key f \<in> airline_key ` set pre" by (rule imageI)
    with n k assms(5) show False by simp
  qed
  with assms(4) fl have "f = p \<or> f \<in> set post" by auto
  moreover from assms(2) fl have "\<forall>g\<in>set post. price_value p \<le> price_value g"
    by (simp add: sorted_append)
  ultimately show ?thesis by auto
qed

lemma backfill_ext:
  "backfill k fs r seen = Inr r' \<Longrightarrow> \<exists>ext. r' = r @ ext \<and> set ext \<subseteq> set fs"
proof (induction fs arbitrary: r seen)
  case Nil
  then show ?case by simp
next
  case (Cons f fs)
  from Cons.prems obtain n where n: "py_hash (flight_number f) = Inr n"
    by (auto split: sum.splits)
  consider (skip) "n \<in> set seen" | (last) "n \<notin> set seen" "k \<le> length (r @ [f])"
    | (more) "n \<notin> set seen" "\<not> k \<le> length (r @ [f])" by blast
  then show ?case
  proof cases
    case skip
    with Cons.prems n have "backfill k fs r seen = Inr r'" by simp
    from Cons.IH [OF this] show ?thesis by auto
  next
    case last
    with Cons.prems n have "r' = r @ [f]" by simp
    then show ?thesis by auto
  next
    case more
    with Cons.prems n have "backfill k fs (r @ [f]) (n # seen) = Inr r'" by simp
    from Cons.IH [OF this] obtain ext where "r' = (r @ [f]) @ ext" "set ext \<subseteq> set fs" by blast
    then have "r' = r @ (f # ext)" "set (f # ext) \<subseteq> set (f # fs)" by auto
    then show ?thesis by blast
  qed
qed

lemma backfill_distinct:
  assumes "backfill k fs r seen = Inr r'"
    and "set seen = fn_key ` set r"
    and "distinct (map fn_key r)"
  shows "distinct (map fn_key r')"
  using assms
proof (induction fs arbitrary: r seen)
  case Nil
  then show ?case by simp
next
  case (Cons f fs)
  from Cons.prems(1) obtain n where n: "py_hash (flight_number f) = Inr n"
    by (auto split: sum.splits)
  have nk: "n = fn_key f" using py_hash_Inr [OF n] by (simp add: fn_key_def)
  consider (skip) "n \<in> set seen" | (last) "n \<notin> set seen" "k \<le> length (r @ [f])"
    | (more) "n \<notin> set seen" "\<not> k \<le> length (r @ [f])" by blast
  then show ?case
  proof cases
    case skip
    with Cons.prems(1) n have "backfill k fs r seen = Inr r'" by simp
    from Cons.IH [OF this Cons.prems(2,3)] show ?thesis .
  next
    case last
    with Cons.prems(1) n have "r' = r @ [f]" by simp
    with last(1) nk Cons.prems(2,3) show ?thesis by auto
  next
    case more
    with Cons.prems(1) n have b: "backfill k fs (r @ [f]) (n # seen) = Inr r'" by simp
    have s: "set (n # seen) = fn_key ` set (r @ [f])" using nk Cons.prems(2) by auto
    have d: "distinct (map fn_key (r @ [f]))" using more(1) nk Cons.prems(2,3) by auto
    from Cons.IH [OF b s d] show ?thesis .
  qed
qed

lemma backfill_length:
  assumes "backfill k fs r seen = Inr r'"
    and "set seen = fn_key ` set r"
    and "length r < k"
  shows "length r' = k \<or> (length r' < k \<and> fn_key ` set fs \<subseteq> fn_key ` set r')"
  using assms
proof (induction fs arbitrary: r seen)
  case Nil
  then show ?case by simp
next
  case (Cons f fs)
  from Cons.prems(1) obtain n where n: "py_hash (flight_number f) = Inr n"
    by (auto split: sum.splits)
  have nk: "n = fn_key f" using py_hash_Inr [OF n] by (simp add: fn_key_def)
  consider (skip) "n \<in> set seen" | (last) "n \<notin> set seen" "k \<le> length (r @ [f])"
    | (more) "n \<notin> set seen" "\<not> k \<le> length (r @ [f])" by blast
  then show ?case
  proof cases
    case skip
    with Cons.prems(1) n have b: "backfill k fs r seen = Inr r'" by simp
    from backfill_ext [OF b] have sub: "set r \<subseteq> set r'" by auto
    from skip nk Cons.prems(2) sub have "fn_key f \<in> fn_key ` set r'" by auto
    with Cons.IH [OF b Cons.prems(2,3)] show ?thesis by auto
  next
    case last
    with Cons.prems(1) n have "r' = r @ [f]" by simp
    with last(2) Cons.prems(3) show ?thesis by auto
  next
    case more
    with Cons.prems(1) n have b: "backfill k fs (r @ [f]) (n # seen) = Inr r'" by simp
    have s: "set (n # seen) = fn_key ` set (r @ [f])" using nk Cons.prems(2) by auto
    have l: "length (r @ [f]) < k" using more(2) by simp
    from backfill_ext [OF b] have "f \<in> set r'" by auto
    with Cons.IH [OF b s l] show ?thesis by auto
  qed
qed

lemma backfill_take:
  assumes "backfill k fs r seen = Inr r'" and "length r < k"
  shows "r' = r @ take (k - length r) (next_unselected seen fs)"
  using assms
proof (induction fs arbitrary: r seen)
  case Nil
  then show ?case by simp
next
  case (Cons f fs)
  from Cons.prems(1) obtain n where n: "py_hash (flight_number f) = Inr n"
    by (auto split: sum.splits)
  have nk: "n = fn_key f" using py_hash_Inr [OF n] by (simp add: fn_key_def)
  consider (skip) "n \<in> set seen" | (last) "n \<notin> set seen" "k \<le> length (r @ [f])"
    | (more) "n \<notin> set seen" "\<not> k \<le> length (r @ [f])" by blast
  then show ?case
  proof cases
    case skip
    with Cons.prems(1) n have b: "backfill k fs r seen = Inr r'" by simp
    from Cons.IH [OF b Cons.prems(2)] skip nk show ?thesis by simp
  next
    case last
    with Cons.prems(1) n have "r' = r @ [f]" by simp
    moreover from last(2) Cons.prems(2) have "k - length r = Suc 0" by simp
    ultimately show ?thesis using last(1) nk by simp
  next
    case more
    with Cons.prems(1) n have b: "backfill k fs (r @ [f]) (n # seen) = Inr r'" by simp
    have l: "length (r @ [f]) < k" using more(2) by simp
    then have "k - length r = Suc (k - length (r @ [f]))" by simp
    with Cons.IH [OF b l] more(1) nk show ?thesis by simp
  qed
qed

lemma alt_candidates_filter:
  "alt_candidates thr r fs = Inr alts \<Longrightarrow>
   alts = filter (\<lambda>f. price_le (price_value f) thr \<and> fn_key f \<notin> fn_key ` set r) fs"
proof (induction fs arbitrary: alts)
  case Nil
  then show ?case by simp
next
  case (Cons f fs)
  show ?case
  proof (cases "price_le (price_value f) thr")
    case False
    with Cons show ?thesis by simp
  next
    case True
    with Cons.prems obtain rs n as where rs: "hash_all (map flight_number r) = Inr rs"
      and n: "py_hash (flight_number f) = Inr n"
      and as: "alt_candidates thr r fs = Inr as"
      and alts: "alts = (if n \<in> set rs then as else f # as)"
      by (auto split: sum.splits)
    have "n = fn_key f" using py_hash_Inr [OF n] by (simp add: fn_key_def)
    moreover have "set rs = fn_key ` set r" using hash_all_fn [OF rs] by simp
    ultimately show ?thesis using True alts Cons.IH [OF as] by simp
  qed
qed

lemma fill_up_ext:
  "fill_up k fs r0 = Inr r \<Longrightarrow> \<exists>ext. r = r0 @ ext \<and> set ext \<subseteq> set fs"
  by (auto simp: fill_up_def split: if_splits sum.splits dest: backfill_ext)

lemma fill_up_distinct:
  assumes "fill_up k fs r0 = Inr r" and "distinct (map fn_key r0)"
  shows "distinct (map fn_key r)"
proof (cases "length r0 < k")
  case False
  with assms show ?thesis by (simp add: fill_up_def)
next
  case True
  with assms(1) obtain seen where s: "hash_all (map flight_number r0) = Inr seen"
    and b: "backfill k fs r0 seen = Inr r"
    by (auto simp: fill_up_def split: sum.splits)
  have "set seen = fn_key ` set r0" using hash_all_fn [OF s] by simp
  from backfill_distinct [OF b this assms(2)] show ?thesis .
qed

lemma fill_up_length:
  assumes "fill_up k fs r0 = Inr r" and "length r0 < k"
  shows "length r = k \<or> (length r < k \<and> fn_key ` set fs \<subseteq> fn_key ` set r)"
proof -
  from assms obtain seen where s: "hash_all (map flight_number r0) = Inr seen"
    and b: "backfill k fs r0 seen = Inr r"
    by (auto simp: fill_up_def split: sum.splits)
  have "set seen = fn_key ` set r0" using hash_all_fn [OF s] by simp
  from backfill_length [OF b this assms(2)] show ?thesis .
qed

lemma fill_up_take:
  assumes "fill_up k fs r0 = Inr r" and "length r0 < k"
  shows "r = r0 @ take (k - length r0) (next_unselected (map fn_key r0) fs)"
proof -
  from assms obtain seen where s: "hash_all (map flight_number r0) = Inr seen"
    and b: "backfill k fs r0 seen = Inr r"
    by (auto simp: fill_up_def split: sum.splits)
  from hash_all_fn [OF s] backfill_take [OF b assms(2)] show ?thesis by simp
qed

lemma recommend_Inr:
  assumes "recommend flights k tol = Inr (r, alts)" and "flights \<noteq> []"
  obtains unique cheapest thr where
    "unique_airlines flights [] = Inr unique"
    "fill_up k flights (take k (sort_key price_value (map snd unique))) = Inr r"
    "cheapest_price flights = Inr cheapest"
    "threshold cheapest tol = Inr thr"
    "alt_candidates thr r flights = Inr alts"
  using assms by (auto simp: recommend_def split: sum.splits)

lemma distinct_mapD:
  "distinct (map f xs) \<Longrightarrow> distinct xs \<and> inj_on f (set xs)"
  by (simp add: distinct_map)

lemma distinct_map_sort_key:
  "distinct (map f (sort_key k xs)) = distinct (map f xs)"
proof -
  have "mset (map f (sort_key k xs)) = mset (map f xs)" by simp
  then show ?thesis by (rule mset_eq_imp_distinct_iff)
qed

lemma Min_sorted_hd:
  assumes "sorted (map k (x # xs))"
  shows "Min (k ` set (x # xs)) = k x"
proof (rule Min_eqI)
  show "finite (k ` set (x # xs))" by simp
  show "k x \<in> k ` set (x # xs)" by simp
  fix y assume "y \<in> k ` set (x # xs)"
  with assms show "k x \<le> y" by auto
qed

subsection \<open>When the selection returns\<close>

text \<open>
  The selection raises only for an airline or flight number that cannot
  be hashed and for a cheapest price beyond the range of a double.
\<close>

lemma hash_all_returns:
  "\<forall>v\<in>set vs. hashable v \<Longrightarrow> hash_all vs = Inr (map py_key vs)"
  by (induction vs) (simp_all add: py_hash_def)

lemma unique_airlines_returns:
  "\<forall>f\<in>set fs. hashable (airline f) \<Longrightarrow> \<exists>u'. unique_airlines fs u = Inr u'"
  by (induction fs arbitrary: u) (simp_all add: py_hash_def)

lemma backfill_returns:
  "\<forall>f\<in>set fs. hashable (flight_number f) \<Longrightarrow> \<exists>r'. backfill k fs r seen = Inr r'"
  by (induction fs arbitrary: r seen) (simp_all add: py_hash_def)

lemma alt_candidates_returns:
  assumes "\<forall>f\<in>set r. hashable (flight_number f)"
  shows "\<forall>f\<in>set fs. hashable (flight_number f) \<Longrightarrow> \<exists>alts. alt_candidates thr r fs = Inr alts"
proof (induction fs)
  case Nil
  then show ?case by simp
next
  case (Cons f fs)
  from assms have "hash_all (map flight_number r) = Inr (map py_key (map flight_number r))"
    by (intro hash_all_returns) simp
  moreover from Cons obtain alts where "alt_candidates thr r fs = Inr alts" by auto
  moreover from Cons.prems have "py_hash (flight_number f) = Inr (py_key (flight_number f))"
    by (simp add: py_hash_def)
  ultimately show ?case by simp
qed

lemma fill_up_returns:
  assumes "\<forall>f\<in>set fs. hashable (flight_number f)"
    and "\<forall>f\<in>set r0. hashable (flight_number f)"
  shows "\<exists>r. fill_up k fs r0 = Inr r"
proof (cases "length r0 < k")
  case True
  from assms(2) have h: "hash_all (map flight_number r0) = Inr (map py_key (map flight_number r0))"
    by (intro hash_all_returns) simp
  from backfill_returns [OF assms(1)] obtain r
    where "backfill k fs r0 (map py_key (map flight_number r0)) = Inr r" by blast
  with True h show ?thesis by (simp add: fill_up_def)
next
  case False
  then show ?thesis by (simp add: fill_up_def)
qed

lemma recommend_returns:
  assumes "\<forall>f\<in>set flights. hashable (airline f) \<and> hashable (flight_number f)"
    and "\<forall>f\<in>set flights. \<forall>c. price_value f = Fin c \<longrightarrow> (\<exists>x. float_of_int c = Inr x)"
  shows "\<exists>recommended alternatives.
           recommend flights max_picks tolerance_pct = Inr (recommended, alternatives)"
proof (cases flights)
  case Nil
  then show ?thesis by (simp add: recommend_def)
next
  case (Cons f fs)
  from assms(1) obtain unique where u: "unique_airlines flights [] = Inr unique"
    using unique_airlines_returns [of flights "[]"] by auto
  let ?r0 = "take max_picks (sort_key price_value (map snd unique))"
  have "set ?r0 \<subseteq> set (sort_key price_value (map snd unique))" by (rule set_take_subset)
  also have "\<dots> \<subseteq> set flights" using unique_airlines_ext [OF u] by auto
  finally have r0: "\<forall>f\<in>set ?r0. hashable (flight_number f)" using assms(1) by blast
  from assms(1) have "\<forall>f\<in>set flights. hashable (flight_number f)" by blast
  from fill_up_returns [OF this r0] obtain r where r: "fill_up max_picks flights ?r0 = Inr r"
    by blast
  from fill_up_ext [OF r] obtain ext where e: "r = ?r0 @ ext" "set ext \<subseteq> set flights"
    by blast
  have rh: "\<forall>f\<in>set r. hashable (flight_number f)"
  proof
    fix g assume "g \<in> set r"
    with e have "g \<in> set ?r0 \<or> g \<in> set flights" by auto
    with r0 assms(1) show "hashable (flight_number g)" by blast
  qed
  have "\<exists>thr. threshold (price_value f) tolerance_pct = Inr thr"
  proof (cases "price_value f")
    case (Fin c)
    with assms(2) Cons obtain x where "float_of_int c = Inr x" by auto
    with Fin show ?thesis by simp
  next
    case Infinity
    then show ?thesis by simp
  qed
  then obtain thr where t: "threshold (price_value f) tolerance_pct = Inr thr" by blast
  from alt_candidates_returns [OF rh, of flights thr] assms(1)
  obtain alts where a: "alt_candidates thr r flights = Inr alts" by auto
  from u r t a Cons show ?thesis by (simp add: recommend_def)
qed

subsection \<open>Sample selections\<close>

text \<open>
  The two callers coincide at the defaults of the form.
\<close>

lemma callers_agree: "streamlit_recommend flights 3 5 = agent_recommend flights"
  by (simp add: streamlit_recommend_def agent_recommend_def)

lemma sample_recommend:
  "recommend sample_sorted 3 (round_double (5 / 100))
   = Inr ([sample_flight ''IndiGo'' (PStr ''6E 2112'') (PStr (rupee @ ''4,000'')) (Fin 4000),
           sample_flight ''Air India'' (PStr ''AI 2425'') (PStr (rupee @ ''4,500'')) (Fin 4500),
           sample_flight ''SpiceJet'' (PStr ''SG 8169'') (PStr ''bad'') Infinity], [])"
  by code_simp

lemma two_airlines_recommend:
  "recommend two_airlines 3 (round_double (5 / 100))
   = Inr ([sample_flight ''IndiGo'' (PStr ''6E 2112'') (PInt 4000) (Fin 4000),
           sample_flight ''Air India'' (PStr ''AI 2425'') (PInt 4150) (Fin 4150),
           sample_flight ''IndiGo'' (PStr ''6E 5031'') (PInt 4100) (Fin 4100)],
          [sample_flight ''IndiGo'' (PStr ''6E 2003'') (PInt 4180) (Fin 4180)])"
  by code_simp

subsection \<open>Flight numbers\<close>

text \<open>
  Against claim C4 as stated (no flight number twice among the
  recommended): two offers of different airlines whose segments have no
  flight number both get \<^verbatim>\<open>'N/A'\<close>, and both are recommended, since the
  pick per airline looks at the airline only.
\<close>

theorem recommend_duplicate_numbers_counterexample:
  "find_direct_flights (Some unnumbered_payload) = Inr unnumbered_flights
   \<and> agent_recommend unnumbered_flights = Inr (unnumbered_flights, [])
   \<and> \<not> distinct (map flight_number unnumbered_flights)"
  by code_simp

text \<open>
  Claim C4, amended: whenever the selection returns, no flight number of a
  recommended flight occurs among the alternatives; and where, besides, no
  flight number is shared by flights of two different airlines, the
  recommended flights have pairwise different flight numbers.
\<close>

theorem recommend_flight_numbers:
  assumes "recommend flights max_picks tolerance_pct = Inr (recommended, alternatives)"
  shows "fn_key ` set recommended \<inter> fn_key ` set alternatives = {}
         \<and> ((\<forall>f\<in>set flights. \<forall>g\<in>set flights.
                 fn_key f = fn_key g \<longrightarrow> airline_key f = airline_key g)
              \<longrightarrow> distinct (map fn_key recommended))"
proof (cases "flights = []")
  case True
  with assms(1) show ?thesis by (simp add: recommend_def)
next
  case False
  from recommend_Inr [OF assms(1) False] obtain unique cheapest thr where
    u: "unique_airlines flights [] = Inr unique"
    and f: "fill_up max_picks flights (take max_picks (sort_key price_value (map snd unique))) = Inr recommended"
    and a: "alt_candidates thr recommended flights = Inr alternatives"
    by blast
  let ?vs = "map snd unique"
  have sub: "set ?vs \<subseteq> set flights" and da: "distinct (map airline_key ?vs)"
    using unique_values [OF u] by blast+
  from distinct_mapD [OF da] have dv: "distinct ?vs" and ia: "inj_on airline_key (set ?vs)"
    by blast+
  have 1: "distinct (map fn_key recommended)"
    if h: "\<forall>f\<in>set flights. \<forall>g\<in>set flights. fn_key f = fn_key g \<longrightarrow> airline_key f = airline_key g"
  proof -
    have "inj_on fn_key (set ?vs)"
    proof (rule inj_onI)
      fix x y assume x: "x \<in> set ?vs" and y: "y \<in> set ?vs" and e: "fn_key x = fn_key y"
      from x y sub h e have "airline_key x = airline_key y" by blast
      with ia x y show "x = y" by (auto dest: inj_onD)
    qed
    with dv have "distinct (map fn_key ?vs)" by (simp only: distinct_map simp_thms)
    then have "distinct (map fn_key (sort_key price_value ?vs))"
      by (simp only: distinct_map_sort_key)
    then have "distinct (take max_picks (map fn_key (sort_key price_value ?vs)))"
      by (rule distinct_take)
    then have "distinct (map fn_key (take max_picks (sort_key price_value ?vs)))"
      by (simp only: take_map)
    from fill_up_distinct [OF f this] show ?thesis .
  qed
  have "fn_key x \<notin> fn_key ` set recommended" if "x \<in> set alternatives" for x
    using that alt_candidates_filter [OF a] by simp
  note n = this
  have 2: "fn_key ` set recommended \<inter> fn_key ` set alternatives = {}"
  proof (rule equals0I)
    fix k assume "k \<in> fn_key ` set recommended \<inter> fn_key ` set alternatives"
    then have k: "k \<in> fn_key ` set recommended" and "k \<in> fn_key ` set alternatives"
      by simp_all
    then obtain x where "x \<in> set alternatives" "k = fn_key x" by (auto simp only: image_iff)
    with n [of x] k show False by simp
  qed
  from 1 2 show ?thesis by blast
qed

text \<open>
  Four flights of two airlines: the third recommended flight comes from the
  backfill, and one flight is left as an alternative.
\<close>

theorem recommend_flight_numbers_witness:
  "recommend two_airlines 3 (round_double (5 / 100))
   = Inr ([sample_flight ''IndiGo'' (PStr ''6E 2112'') (PInt 4000) (Fin 4000),
           sample_flight ''Air India'' (PStr ''AI 2425'') (PInt 4150) (Fin 4150),
           sample_flight ''IndiGo'' (PStr ''6E 5031'') (PInt 4100) (Fin 4100)],
          [sample_flight ''IndiGo'' (PStr ''6E 2003'') (PInt 4180) (Fin 4180)])
   \<and> distinct (map fn_key two_airlines)
   \<and> distinct (map fn_key
        [sample_flight ''IndiGo'' (PStr ''6E 2112'') (PInt 4000) (Fin 4000),
         sample_flight ''Air India'' (PStr ''AI 2425'') (PInt 4150) (Fin 4150),
         sample_flight ''IndiGo'' (PStr ''6E 5031'') (PInt 4100) (Fin 4100)])
   \<and> fn_key ` set [sample_flight ''IndiGo'' (PStr ''6E 2112'') (PInt 4000) (Fin 4000),
         sample_flight ''Air India'' (PStr ''AI 2425'') (PInt 4150) (Fin 4150),
         sample_flight ''IndiGo'' (PStr ''6E 5031'') (PInt 4100) (Fin 4100)]
       \<inter> fn_key ` set [sample_flight ''IndiGo'' (PStr ''6E 2003'') (PInt 4180) (Fin 4180)] = {}"
proof -
  have h: "\<forall>f\<in>set two_airlines. \<forall>g\<in>set two_airlines.
             fn_key f = fn_key g \<longrightarrow> airline_key f = airline_key g"
    by code_simp
  have d: "distinct (map fn_key two_airlines)" by code_simp
  from recommend_flight_numbers [OF two_airlines_recommend] h d two_airlines_recommend
  show ?thesis by blast
qed

subsection \<open>Backfilling\<close>

text \<open>
  Against claim C5 as stated (exactly \<^verbatim>\<open>max_picks\<close> recommended when
  there are at least so many flights and fewer airlines): three offers of one
  flight number give one recommended flight, the walk skipping the two
  others.
\<close>

theorem recommend_short_counterexample:
  "find_direct_flights (Some three_fares_payload) = Inr three_fares
   \<and> 3 \<le> length three_fares
   \<and> card (airline_key ` set three_fares) < 3
   \<and> agent_recommend three_fares
       = Inr ([sample_flight ''IndiGo'' (PStr ''6E 2112'') (PInt 4000) (Fin 4000)], [])"
  by code_simp

text \<open>
  Claim C5, amended: for a list sorted by price of at least \<^verbatim>\<open>max_picks\<close>
  flights with fewer than \<^verbatim>\<open>max_picks\<close> airlines and at least
  \<^verbatim>\<open>max_picks\<close> different flight numbers, whenever the selection
  returns, exactly \<^verbatim>\<open>max_picks\<close> flights are recommended: one flight of
  every airline, each a cheapest of its airline, in order of price, followed
  by the first flights of the sorted list, in its order, whose number was not
  selected before.
\<close>

theorem recommend_backfilled:
  assumes "recommend flights max_picks tolerance_pct = Inr (recommended, alternatives)"
    and "sorted (map price_value flights)"
    and "max_picks \<le> length flights"
    and "card (airline_key ` set flights) < max_picks"
    and "max_picks \<le> card (fn_key ` set flights)"
  shows "length recommended = max_picks
         \<and> (\<exists>picks. recommended
                       = picks @ take (max_picks - length picks)
                                   (next_unselected (map fn_key picks) flights)
               \<and> set picks \<subseteq> set flights
               \<and> distinct (map airline_key picks)
               \<and> airline_key ` set picks = airline_key ` set flights
               \<and> sorted (map price_value picks)
               \<and> (\<forall>p\<in>set picks. \<forall>f\<in>set flights.
                     airline_key f = airline_key p \<longrightarrow> price_value p \<le> price_value f))"
proof -
  from assms(4,5) have ne: "flights \<noteq> []" by auto
  from recommend_Inr [OF assms(1) ne] obtain unique where
    u: "unique_airlines flights [] = Inr unique"
    and f: "fill_up max_picks flights (take max_picks (sort_key price_value (map snd unique))) = Inr recommended"
    by blast
  let ?picks = "sort_key price_value (map snd unique)"
  have sp: "set ?picks = set (map snd unique)" by simp
  have lu: "length unique = card (airline_key ` set flights)" by (rule unique_values(4) [OF u])
  with assms(4) have short: "length ?picks < max_picks" by simp
  then have t: "take max_picks ?picks = ?picks" by simp
  from short have l0: "length (take max_picks ?picks) < max_picks" by simp
  have len: "length recommended = max_picks"
    using fill_up_length [OF f l0]
  proof
    assume "length recommended = max_picks" then show ?thesis .
  next
    assume x: "length recommended < max_picks \<and> fn_key ` set flights \<subseteq> fn_key ` set recommended"
    then have "card (fn_key ` set flights) \<le> card (fn_key ` set recommended)"
      by (simp add: card_mono)
    also have "\<dots> \<le> card (set recommended)" by (simp add: card_image_le)
    also have "\<dots> \<le> length recommended" by (rule card_length)
    finally show ?thesis using x assms(5) by simp
  qed
  from fill_up_take [OF f l0]
  have 1: "recommended = ?picks @ take (max_picks - length ?picks) (next_unselected (map fn_key ?picks) flights)"
    unfolding t .
  have 2: "set ?picks \<subseteq> set flights" unfolding sp by (rule unique_values(1) [OF u])
  have 3: "distinct (map airline_key ?picks)"
    unfolding distinct_map_sort_key by (rule unique_values(2) [OF u])
  have 4: "airline_key ` set ?picks = airline_key ` set flights"
    unfolding sp by (rule unique_values(3) [OF u])
  have 5: "sorted (map price_value ?picks)" by (rule sorted_sort_key)
  have 6: "\<forall>p\<in>set ?picks. \<forall>f\<in>set flights.
             airline_key f = airline_key p \<longrightarrow> price_value p \<le> price_value f"
    unfolding sp using unique_values_cheapest [OF u assms(2)] by blast
  from len 1 2 3 4 5 6 show ?thesis by blast
qed

theorem recommend_backfilled_witness:
  "recommend two_airlines 3 (round_double (5 / 100))
   = Inr ([sample_flight ''IndiGo'' (PStr ''6E 2112'') (PInt 4000) (Fin 4000),
           sample_flight ''Air India'' (PStr ''AI 2425'') (PInt 4150) (Fin 4150),
           sample_flight ''IndiGo'' (PStr ''6E 5031'') (PInt 4100) (Fin 4100)],
          [sample_flight ''IndiGo'' (PStr ''6E 2003'') (PInt 4180) (Fin 4180)])
   \<and> sorted (map price_value two_airlines)
   \<and> 3 \<le> length two_airlines
   \<and> card (airline_key ` set two_airlines) < 3
   \<and> 3 \<le> card (fn_key ` set two_airlines)
   \<and> length [sample_flight ''IndiGo'' (PStr ''6E 2112'') (PInt 4000) (Fin 4000),
              sample_flight ''Air India'' (PStr ''AI 2425'') (PInt 4150) (Fin 4150),
              sample_flight ''IndiGo'' (PStr ''6E 5031'') (PInt 4100) (Fin 4100)] = 3"
proof -
  have s: "sorted (map price_value two_airlines)" by code_simp
  have l: "3 \<le> length two_airlines" by code_simp
  have a: "card (airline_key ` set two_airlines) < 3" by code_simp
  have n: "3 \<le> card (fn_key ` set two_airlines)" by code_simp
  from recommend_backfilled [OF two_airlines_recommend s l a n] two_airlines_recommend s l a n
  show ?thesis by blast
qed

subsection \<open>Alternatives\<close>

text \<open>
  Against claim C6 as stated (a price of at most the least price times
  \<open>1 + tolerance_pct\<close>): with the least price 5000 and the slider at 13,
  the flight at \<open>5650 = 5000 \<sqdot> 1.13\<close> is no alternative, the bound of
  the code being the double \<^verbatim>\<open>5649.999999999999\<close>; and with the slider
  at 15 the flight at 5750 is an alternative, although \<open>5000 \<sqdot> (1 + t)\<close>
  is below 5750 for the double \<open>t\<close> nearest to \<open>0.15\<close> that the code
  adds to one.  The alternatives are those of the exact bound neither for
  the percentage nor for the double that stands for it.
\<close>

theorem recommend_alternatives_counterexample:
  "streamlit_recommend five_fares 3 13 = Inr (take 3 five_fares, [])
   \<and> spec_alternatives five_fares (13 / 100) (take 3 five_fares) = [five_fares ! 3]
   \<and> round_double (15 / 100) = FloatVal (5404319552844595 / 36028797018963968)
   \<and> streamlit_recommend five_fares 3 15 = Inr (take 3 five_fares, [five_fares ! 3, five_fares ! 4])
   \<and> spec_alternatives five_fares (5404319552844595 / 36028797018963968) (take 3 five_fares)
       = [five_fares ! 3]"
  by code_simp

text \<open>
  Claim C6, amended: for a non-empty list sorted by price, whenever the
  selection returns, the alternatives are the flights of the list, in its
  order, whose price is at most the bound
  and whose flight number is not that of a recommended flight; the bound is
  the double-precision product of the least price of all flights, taken as
  the double nearest to it, and the double-precision sum of one and
  \<^verbatim>\<open>tolerance_pct\<close>, each the exact result rounded to the nearest
  double, ties to even.
\<close>

theorem recommend_alternatives:
  assumes "recommend flights max_picks tolerance_pct = Inr (recommended, alternatives)"
    and "sorted (map price_value flights)"
    and "flights \<noteq> []"
  shows "\<exists>thr. is_threshold (Min (price_value ` set flights)) tolerance_pct thr
           \<and> alternatives
               = filter (\<lambda>f. price_le (price_value f) thr \<and> fn_key f \<notin> fn_key ` set recommended)
                   flights
           \<and> sorted (map price_value alternatives)"
proof -
  from assms(3) obtain f fs where fl: "flights = f # fs" by (cases flights) auto
  from recommend_Inr [OF assms(1,3)] obtain cheapest thr where
    c: "cheapest_price flights = Inr cheapest"
    and t: "threshold cheapest tolerance_pct = Inr thr"
    and a: "alt_candidates thr recommended flights = Inr alternatives"
    by blast
  from c fl have "cheapest = price_value f" by simp
  also have "\<dots> = Min (price_value ` set flights)"
    using Min_sorted_hd [of price_value f fs] assms(2) fl by simp
  finally have "threshold (Min (price_value ` set flights)) tolerance_pct = Inr thr"
    using t by simp
  then have 1: "is_threshold (Min (price_value ` set flights)) tolerance_pct thr"
    by (rule threshold_is_threshold)
  note 2 = alt_candidates_filter [OF a]
  have "sorted (map price_value alternatives)"
    unfolding 2 using assms(2) by (rule sorted_filter)
  with 1 2 show ?thesis by blast
qed

text \<open>
  At a least price of 4000 and five percent the bound is 4200.
\<close>

theorem recommend_alternatives_witness:
  "recommend two_airlines 3 (round_double (5 / 100))
   = Inr ([sample_flight ''IndiGo'' (PStr ''6E 2112'') (PInt 4000) (Fin 4000),
           sample_flight ''Air India'' (PStr ''AI 2425'') (PInt 4150) (Fin 4150),
           sample_flight ''IndiGo'' (PStr ''6E 5031'') (PInt 4100) (Fin 4100)],
          [sample_flight ''IndiGo'' (PStr ''6E 2003'') (PInt 4180) (Fin 4180)])
   \<and> sorted (map price_value two_airlines)
   \<and> is_threshold (Fin 4000) (round_double (5 / 100)) (FloatVal 4200)
   \<and> [sample_flight ''IndiGo'' (PStr ''6E 2003'') (PInt 4180) (Fin 4180)]
       = filter (\<lambda>f. price_le (price_value f) (FloatVal 4200)
                   \<and> fn_key f \<notin> fn_key ` set
                       [sample_flight ''IndiGo'' (PStr ''6E 2112'') (PInt 4000) (Fin 4000),
                        sample_flight ''Air India'' (PStr ''AI 2425'') (PInt 4150) (Fin 4150),
                        sample_flight ''IndiGo'' (PStr ''6E 5031'') (PInt 4100) (Fin 4100)])
           two_airlines"
proof -
  have s: "sorted (map price_value two_airlines)" by code_simp
  have n: "two_airlines \<noteq> []" by code_simp
  have m: "Min (price_value ` set two_airlines) = Fin 4000"
    by (simp add: two_airlines_def sample_flight_def)
  have t: "threshold (Fin 4000) (round_double (5 / 100)) = Inr (FloatVal 4200)" by code_simp
  from recommend_alternatives [OF two_airlines_recommend s n] obtain thr where
    1: "is_threshold (Fin 4000) (round_double (5 / 100)) thr"
    and 2: "[sample_flight ''IndiGo'' (PStr ''6E 2003'') (PInt 4180) (Fin 4180)]
       = filter (\<lambda>f. price_le (price_value f) thr
                   \<and> fn_key f \<notin> fn_key ` set
                       [sample_flight ''IndiGo'' (PStr ''6E 2112'') (PInt 4000) (Fin 4000),
                        sample_flight ''Air India'' (PStr ''AI 2425'') (PInt 4150) (Fin 4150),
                        sample_flight ''IndiGo'' (PStr ''6E 5031'') (PInt 4100) (Fin 4100)])
           two_airlines"
    unfolding m by blast
  from is_threshold_unique [OF 1 threshold_is_threshold [OF t]] have "thr = FloatVal 4200" .
  with 1 2 two_airlines_recommend s show ?thesis by blast
qed

subsection \<open>No flights\<close>

text \<open>
  Claim C7: for the empty list the selection returns two empty lists and
  raises nothing; the cheapest price, whose lookup \<^verbatim>\<open>flights[0]\<close> would
  raise there, is not computed.
\<close>

theorem recommend_empty:
  "recommend [] max_picks tolerance_pct = Inr ([], []) \<and> cheapest_price [] = Inl IndexError"
  by (simp add: recommend_def)

theorem recommend_empty_witness:
  "recommend [] 3 (round_double (5 / 100)) = Inr ([], [])"
  using recommend_empty [of 3 "round_double (5 / 100)"] by blast

subsection \<open>The cheapest flight comes first\<close>

text \<open>
  Claim C10: for a non-empty list sorted by price and at least one pick,
  the first recommended flight is the first flight of the list.
\<close>

theorem recommend_cheapest_first:
  assumes "recommend flights max_picks tolerance_pct = Inr (recommended, alternatives)"
    and "sorted (map price_value flights)"
    and "flights \<noteq> []"
    and "1 \<le> max_picks"
  shows "recommended \<noteq> [] \<and> hd recommended = hd flights"
proof -
  from assms(3) obtain f fs where fl: "flights = f # fs" by (cases flights) auto
  from recommend_Inr [OF assms(1,3)] obtain unique where
    u: "unique_airlines flights [] = Inr unique"
    and fu: "fill_up max_picks flights (take max_picks (sort_key price_value (map snd unique))) = Inr recommended"
    by blast
  from u fl obtain a where "unique_airlines fs [(a, f)] = Inr unique"
    by (auto split: sum.splits)
  from unique_airlines_ext [OF this] obtain ext where
    e: "unique = [(a, f)] @ ext" "snd ` set ext \<subseteq> set fs" by blast
  let ?rest = "map snd ext"
  have le: "\<forall>x\<in>set (sort_key price_value ?rest). price_value f \<le> price_value x"
    using assms(2) e(2) fl by auto
  have "sort_key price_value (map snd unique) = insort_key price_value f (sort_key price_value ?rest)"
    using e(1) by simp
  also have "\<dots> = f # sort_key price_value ?rest"
    using le by (rule insort_is_Cons)
  finally have "take max_picks (sort_key price_value (map snd unique))
                = f # take (max_picks - 1) (sort_key price_value ?rest)"
    using assms(4) by (cases max_picks) simp_all
  with fill_up_ext [OF fu] fl show ?thesis by auto
qed

theorem recommend_cheapest_first_witness:
  "recommend sample_sorted 3 (round_double (5 / 100))
   = Inr ([sample_flight ''IndiGo'' (PStr ''6E 2112'') (PStr (rupee @ ''4,000'')) (Fin 4000),
           sample_flight ''Air India'' (PStr ''AI 2425'') (PStr (rupee @ ''4,500'')) (Fin 4500),
           sample_flight ''SpiceJet'' (PStr ''SG 8169'') (PStr ''bad'') Infinity], [])
   \<and> sorted (map price_value sample_sorted)
   \<and> hd [sample_flight ''IndiGo'' (PStr ''6E 2112'') (PStr (rupee @ ''4,000'')) (Fin 4000),
          sample_flight ''Air India'' (PStr ''AI 2425'') (PStr (rupee @ ''4,500'')) (Fin 4500),
          sample_flight ''SpiceJet'' (PStr ''SG 8169'') (PStr ''bad'') Infinity]
       = hd sample_sorted"
proof -
  have s: "sorted (map price_value sample_sorted)" by code_simp
  have n: "sample_sorted \<noteq> []" by code_simp
  have k: "(1::nat) \<le> 3" by simp
  from recommend_cheapest_first [OF sample_recommend s n k] sample_recommend s
  show ?thesis by blast
qed

end
